theory Spec2Isabelle
  imports Main "HOL-Library.Multiset" "HOL-Library.Extended_Nat"
begin

section \<open>Prioritized experience replay: priority tree and experience store\<close>

text \<open>
  A shallow embedding of \<^verbatim>\<open>learningALE/handlers/binarysearch.py\<close> (classes
  \<^verbatim>\<open>Node\<close> and \<^verbatim>\<open>BinaryTree\<close>) and of
  \<^verbatim>\<open>learningALE/handlers/prioritizedexperiencehandler.py\<close> (class
  \<^verbatim>\<open>PrioritizedExperienceHandler\<close>).

  Priorities are Python floats compared with \<^verbatim>\<open>>=\<close>. The comparison is modelled by
  a linear order \<open>'p\<close>; \<^verbatim>\<open>np.inf\<close> is the greatest element \<open>top\<close>. NaN, on which
  \<^verbatim>\<open>>=\<close> is not a linear order, and the rounding of the \<^verbatim>\<open>float32\<close> casts are outside the
  model. Mutation is explicit state passing: a method takes the object and returns the
  object after the call; a raised exception is the \<open>Inl\<close> branch of the result.
\<close>

subsection \<open>Exceptions\<close>

datatype error = AttributeError | IndexError | ValueError

subsection \<open>Node and BinaryTree\<close>

text \<open>
  A \<^verbatim>\<open>Node\<close> has the attributes \<^verbatim>\<open>left\<close>, \<^verbatim>\<open>right\<close> (a \<^verbatim>\<open>Node\<close> or \<^verbatim>\<open>None\<close>),
  \<^verbatim>\<open>value\<close> and \<^verbatim>\<open>extra_vals\<close>. \<^verbatim>\<open>if self.right:\<close> tests for \<^verbatim>\<open>None\<close>: a
  \<^verbatim>\<open>Node\<close> defines neither \<^verbatim>\<open>__bool__\<close> nor \<^verbatim>\<open>__len__\<close> and is always true.
\<close>

datatype ('p, 'x) node =
  Node (left: "('p, 'x) node option") (node_value: 'p) (extra_vals: 'x)
       (right: "('p, 'x) node option")

text \<open>\<^verbatim>\<open>Node.insert\<close>: the node after the call.\<close>

fun node_insert :: "('p::linorder, 'x) node \<Rightarrow> 'p \<Rightarrow> 'x \<Rightarrow> ('p, 'x) node" where
  "node_insert (Node l v e r) new_val new_extra =
     (if new_val \<ge> v then
        (case r of
           Some rc \<Rightarrow> Node l v e (Some (node_insert rc new_val new_extra))
         | None \<Rightarrow> Node l v e (Some (Node None new_val new_extra None)))
      else
        (case l of
           Some lc \<Rightarrow> Node (Some (node_insert lc new_val new_extra)) v e r
         | None \<Rightarrow> Node (Some (Node None new_val new_extra None)) v e r))"

text \<open>
  \<^verbatim>\<open>Node.pop_max\<close>: the returned tuple \<^verbatim>\<open>(ret_val, extra_vals, hanging_left, term)\<close>,
  paired with the node after the call. When \<^verbatim>\<open>term\<close> is 1 the node itself is the maximum
  and is left as it was; its caller unlinks it.
\<close>

fun node_pop_max ::
  "('p, 'x) node \<Rightarrow> ('p \<times> 'x \<times> ('p, 'x) node option \<times> bool) \<times> ('p, 'x) node" where
  "node_pop_max (Node l v e r) =
     (case r of
        Some rc \<Rightarrow>
          (case node_pop_max rc of
             ((ret_val, extra, hanging_left, term), rc') \<Rightarrow>
               ((ret_val, extra, hanging_left, False),
                (if term then Node l v e hanging_left else Node l v e (Some rc'))))
      | None \<Rightarrow> ((v, e, l, True), Node l v e None))"

record ('p, 'x) binary_tree =
  root :: "('p, 'x) node option"

definition bt_init :: "('p, 'x) binary_tree" where
  "bt_init = \<lparr>root = None\<rparr>"

text \<open>\<^verbatim>\<open>BinaryTree.insert\<close>.\<close>

definition bt_insert :: "('p::linorder, 'x) binary_tree \<Rightarrow> 'p \<Rightarrow> 'x \<Rightarrow> ('p, 'x) binary_tree" where
  "bt_insert t val extra =
     (case root t of
        Some n \<Rightarrow> t\<lparr>root := Some (node_insert n val extra)\<rparr>
      | None \<Rightarrow> t\<lparr>root := Some (Node None val extra None)\<rparr>)"

text \<open>
  \<^verbatim>\<open>BinaryTree.pop_max\<close>. On an empty tree \<^verbatim>\<open>self.root\<close> is \<^verbatim>\<open>None\<close> and
  \<^verbatim>\<open>self.root.pop_max()\<close> raises \<^verbatim>\<open>AttributeError\<close>; the tree is not changed.
\<close>

definition bt_pop_max ::
  "('p, 'x) binary_tree \<Rightarrow> error + (('p \<times> 'x) \<times> ('p, 'x) binary_tree)" where
  "bt_pop_max t =
     (case root t of
        None \<Rightarrow> Inl AttributeError
      | Some n \<Rightarrow>
          (case node_pop_max n of
             ((val, extra, hanging_left, term), n') \<Rightarrow>
               Inr ((val, extra),
                    (if term then t\<lparr>root := hanging_left\<rparr> else t\<lparr>root := Some n'\<rparr>))))"

subsection \<open>What a tree holds\<close>

text \<open>The (priority, payload) pairs of a tree from left to right.\<close>

fun entries :: "('p, 'x) node \<Rightarrow> ('p \<times> 'x) list" where
  "entries (Node l v e r) =
     (case l of None \<Rightarrow> [] | Some lc \<Rightarrow> entries lc) @ (v, e) #
     (case r of None \<Rightarrow> [] | Some rc \<Rightarrow> entries rc)"

definition subtree_entries :: "('p, 'x) node option \<Rightarrow> ('p \<times> 'x) list" where
  "subtree_entries t = (case t of None \<Rightarrow> [] | Some n \<Rightarrow> entries n)"

definition bt_entries :: "('p, 'x) binary_tree \<Rightarrow> ('p \<times> 'x) list" where
  "bt_entries t = subtree_entries (root t)"

text \<open>
  The ordering invariant of the data model: at every node the priorities of the left
  subtree are at most the node's, those of the right subtree at least the node's.
\<close>

fun bst :: "('p::linorder, 'x) node \<Rightarrow> bool" where
  "bst (Node l v e r) =
     ((case l of None \<Rightarrow> True
       | Some lc \<Rightarrow> bst lc \<and> (\<forall>q \<in> set (map fst (entries lc)). q \<le> v)) \<and>
      (case r of None \<Rightarrow> True
       | Some rc \<Rightarrow> bst rc \<and> (\<forall>q \<in> set (map fst (entries rc)). v \<le> q)))"

definition bst_opt :: "('p::linorder, 'x) node option \<Rightarrow> bool" where
  "bst_opt t = (case t of None \<Rightarrow> True | Some n \<Rightarrow> bst n)"

definition bt_bst :: "('p::linorder, 'x) binary_tree \<Rightarrow> bool" where
  "bt_bst t = (case root t of None \<Rightarrow> True | Some n \<Rightarrow> bst n)"

subsection \<open>Sequences of tree operations\<close>

datatype ('p, 'x) tree_op = Insert 'p 'x | PopMax

text \<open>
  A caller's sequence of calls on one tree: the popped pairs in order and the tree at the
  end, or the exception of the first call that raises.
\<close>

fun bt_run ::
  "('p::linorder, 'x) binary_tree \<Rightarrow> ('p, 'x) tree_op list \<Rightarrow>
   error + (('p \<times> 'x) list \<times> ('p, 'x) binary_tree)" where
  "bt_run t [] = Inr ([], t)"
| "bt_run t (Insert p x # ops) = bt_run (bt_insert t p x) ops"
| "bt_run t (PopMax # ops) =
     (case bt_pop_max t of
        Inl err \<Rightarrow> Inl err
      | Inr (out, t') \<Rightarrow>
          (case bt_run t' ops of
             Inl err \<Rightarrow> Inl err
           | Inr (outs, t'') \<Rightarrow> Inr (out # outs, t'')))"

fun bt_inserts :: "('p::linorder, 'x) binary_tree \<Rightarrow> ('p \<times> 'x) list \<Rightarrow> ('p, 'x) binary_tree" where
  "bt_inserts t [] = t"
| "bt_inserts t ((p, x) # es) = bt_inserts (bt_insert t p x) es"

subsection \<open>Maximum deletion as the specification words it\<close>

text \<open>
  The specification's wording of \<^verbatim>\<open>pop_max\<close>, written down independently of the code:
  descend the rightmost path; the node found there is the one removed, and its left
  subtree takes its place in the parent's right-child slot, or becomes the root when the
  root is removed.
\<close>

fun spec_rightmost :: "('p, 'x) node \<Rightarrow> 'p \<times> 'x" where
  "spec_rightmost (Node l v e r) = (case r of None \<Rightarrow> (v, e) | Some rc \<Rightarrow> spec_rightmost rc)"

fun spec_splice_max :: "('p, 'x) node \<Rightarrow> ('p, 'x) node option" where
  "spec_splice_max (Node l v e r) =
     (case r of None \<Rightarrow> l | Some rc \<Rightarrow> Some (Node l v e (spec_splice_max rc)))"

subsection \<open>A priority queue with last-in-first-out ties\<close>

text \<open>
  The pending entries, most recently inserted first. A pop takes the most recently
  inserted entry among those of maximal priority.
\<close>

definition max_priority :: "('p::linorder \<times> 'x) list \<Rightarrow> 'p" where
  "max_priority es = Max (set (map fst es))"

fun remove_first :: "('a \<Rightarrow> bool) \<Rightarrow> 'a list \<Rightarrow> 'a list" where
  "remove_first P [] = []"
| "remove_first P (y # ys) = (if P y then ys else y # remove_first P ys)"

definition lifo_pop :: "('p::linorder \<times> 'x) list \<Rightarrow> (('p \<times> 'x) \<times> ('p \<times> 'x) list) option" where
  "lifo_pop es =
     (case find (\<lambda>c. fst c = max_priority es) es of
        None \<Rightarrow> None
      | Some c \<Rightarrow> Some (c, remove_first (\<lambda>c. fst c = max_priority es) es))"

fun lifo_run ::
  "('p::linorder \<times> 'x) list \<Rightarrow> ('p, 'x) tree_op list \<Rightarrow> error + ('p \<times> 'x) list" where
  "lifo_run es [] = Inr []"
| "lifo_run es (Insert p x # ops) = lifo_run ((p, x) # es) ops"
| "lifo_run es (PopMax # ops) =
     (case lifo_pop es of
        None \<Rightarrow> Inl AttributeError
      | Some (out, es') \<Rightarrow>
          (case lifo_run es' ops of Inl err \<Rightarrow> Inl err | Inr outs \<Rightarrow> Inr (out # outs)))"

text \<open>
  The entries of a tree from right to left are the pending entries sorted by falling
  priority, ties most recent first: \<open>desc_insert\<close> places a new entry before the first
  entry that is not greater.
\<close>

fun desc_insert :: "('p::linorder \<times> 'x) \<Rightarrow> ('p \<times> 'x) list \<Rightarrow> ('p \<times> 'x) list" where
  "desc_insert c [] = [c]"
| "desc_insert c (y # ys) = (if fst y \<le> fst c then c # y # ys else y # desc_insert c ys)"

fun desc_sort :: "('p::linorder \<times> 'x) list \<Rightarrow> ('p \<times> 'x) list" where
  "desc_sort [] = []"
| "desc_sort (c # es) = desc_insert c (desc_sort es)"

subsection \<open>The experience store\<close>

subsubsection \<open>Python list indexing\<close>

text \<open>
  \<^verbatim>\<open>xs[i]\<close> on a Python list: a negative index counts from the end, and an index outside
  \<^verbatim>\<open>-len(xs) .. len(xs)-1\<close> raises \<^verbatim>\<open>IndexError\<close>.
\<close>

definition py_index :: "'a list \<Rightarrow> int \<Rightarrow> error + 'a" where
  "py_index xs i =
     (if 0 \<le> i \<and> i < int (length xs) then Inr (xs ! nat i)
      else if - int (length xs) \<le> i \<and> i < 0 then Inr (xs ! nat (int (length xs) + i))
      else Inl IndexError)"

subsubsection \<open>ExperienceHandler, the base class\<close>

text \<open>
  The attributes of the base class that \<^verbatim>\<open>PrioritizedExperienceHandler\<close> reads:
  \<^verbatim>\<open>states\<close>, \<^verbatim>\<open>actions\<close>, \<^verbatim>\<open>rewards\<close> (Python lists), \<^verbatim>\<open>term_states\<close> (a set of
  indices), \<^verbatim>\<open>size\<close> and the capacity \<^verbatim>\<open>max_len\<close>. A state is a tensor; the model keeps
  it abstract, of a type with a zero (the zero-filled tensor of the states' shape), and
  takes all states to have one shape. The subclass is a record extension, so a method of
  the base class cannot touch the attributes the subclass adds.
\<close>

record ('s, 'r) experience_handler =
  states :: "'s list"
  actions :: "int list"
  rewards :: "'r list"
  term_states :: "int set"
  size_eh :: int
  max_len :: int

text \<open>
  Modelled from the spec: the methods of \<^verbatim>\<open>ExperienceHandler\<close>
  (module \<^verbatim>\<open>learningALE/handlers/experiencehandler.py\<close>, whose code is not available).
  The buffer is an ordered sequence of transitions and its size is its length.
\<close>

definition buffer_wf :: "('s, 'r, 'm) experience_handler_scheme \<Rightarrow> bool" where
  "buffer_wf b \<longleftrightarrow>
     length (actions b) = length (states b) \<and> length (rewards b) = length (states b) \<and>
     size_eh b = int (length (states b))"

text \<open>
  Modelled from the spec: \<^verbatim>\<open>ExperienceHandler.add_experience\<close> appends the transition to
  the sequence and returns the newly assigned index, which is the buffer length at
  insertion time (the caller's comment reads \<^verbatim>\<open>insert_ind is len(list)\<close>).
\<close>

definition eh_add_experience ::
  "('s, 'r, 'm) experience_handler_scheme \<Rightarrow> 's \<Rightarrow> int \<Rightarrow> 'r \<Rightarrow>
   int \<times> ('s, 'r, 'm) experience_handler_scheme" where
  "eh_add_experience b state action reward =
     (let b' = b\<lparr>states := states b @ [state], actions := actions b @ [action],
                 rewards := rewards b @ [reward], size_eh := size_eh b + 1\<rparr>
      in (int (length (states b')), b'))"

text \<open>
  Modelled from the spec: \<^verbatim>\<open>ExperienceHandler.add_terminal\<close> marks the current
  end-of-sequence index as terminal.
\<close>

definition eh_add_terminal ::
  "('s, 'r, 'm) experience_handler_scheme \<Rightarrow> ('s, 'r, 'm) experience_handler_scheme" where
  "eh_add_terminal b = b\<lparr>term_states := insert (int (length (states b)) - 1) (term_states b)\<rparr>"

text \<open>
  Modelled from the spec: \<^verbatim>\<open>ExperienceHandler.trim\<close> discards the oldest entries when the
  length exceeds the capacity, so that the length is at most the capacity; the indices
  shift with the entries, and a terminal marker of a discarded entry is dropped.
\<close>

definition eh_trim ::
  "('s, 'r, 'm) experience_handler_scheme \<Rightarrow> ('s, 'r, 'm) experience_handler_scheme" where
  "eh_trim b =
     (let excess = length (states b) - nat (max_len b)
      in b\<lparr>states := drop excess (states b), actions := drop excess (actions b),
            rewards := drop excess (rewards b),
            term_states := (\<lambda>i. i - int excess) ` {i \<in> term_states b. int excess \<le> i},
            size_eh := size_eh b - int excess\<rparr>)"

subsubsection \<open>PrioritizedExperienceHandler\<close>

text \<open>
  The subclass adds the tree. Its constructor also stores \<^verbatim>\<open>num_actions\<close>,
  \<^verbatim>\<open>dtype\<close>, \<^verbatim>\<open>discount\<close> and \<^verbatim>\<open>costList\<close>, which no method reads.
\<close>

record ('s, 'r, 'p) prioritized_experience_handler = "('s, 'r) experience_handler" +
  tree :: "('p, int) binary_tree"

text \<open>
  The constructor. Modelled from the spec: the base-class constructor leaves an empty
  buffer of the given capacity.
\<close>

definition peh_init :: "int \<Rightarrow> ('s, 'r, 'p) prioritized_experience_handler" where
  "peh_init capacity =
     \<lparr>states = [], actions = [], rewards = [], term_states = {}, size_eh = 0,
      max_len = capacity, tree = bt_init\<rparr>"

text \<open>\<^verbatim>\<open>PrioritizedExperienceHandler.add_experience\<close>.\<close>

definition add_experience ::
  "('s, 'r, 'p::{linorder, order_top}) prioritized_experience_handler \<Rightarrow> 's \<Rightarrow> int \<Rightarrow> 'r \<Rightarrow>
   ('s, 'r, 'p) prioritized_experience_handler" where
  "add_experience s state action reward =
     (case eh_add_experience s state action reward of
        (insert_ind, s1) \<Rightarrow>
          if insert_ind > 1 then s1\<lparr>tree := bt_insert (tree s1) top (insert_ind - 2)\<rparr>
          else s1)"

text \<open>\<^verbatim>\<open>PrioritizedExperienceHandler.add_terminal\<close>.\<close>

definition add_terminal ::
  "('s, 'r, 'p::{linorder, order_top}) prioritized_experience_handler \<Rightarrow>
   ('s, 'r, 'p) prioritized_experience_handler" where
  "add_terminal s =
     (let s1 = eh_add_terminal s
      in s1\<lparr>tree := bt_insert (tree s1) top (size_eh s1 - 1)\<rparr>)"

text \<open>
  \<^verbatim>\<open>PrioritizedExperienceHandler.set_new_td_errors\<close>: \<^verbatim>\<open>zip\<close> stops at the shorter
  list.
\<close>

fun set_new_td_errors ::
  "('s, 'r, 'p::linorder) prioritized_experience_handler \<Rightarrow> 'p list \<Rightarrow> int list \<Rightarrow>
   ('s, 'r, 'p) prioritized_experience_handler" where
  "set_new_td_errors s (td_error # td_errors) (ind # state_inds) =
     set_new_td_errors (s\<lparr>tree := bt_insert (tree s) td_error ind\<rparr>) td_errors state_inds"
| "set_new_td_errors s _ _ = s"

text \<open>\<^verbatim>\<open>PrioritizedExperienceHandler.trim\<close> only calls the base class.\<close>

definition trim ::
  "('s, 'r, 'p) prioritized_experience_handler \<Rightarrow> ('s, 'r, 'p) prioritized_experience_handler" where
  "trim s = eh_trim s"

text \<open>
  The local variables of \<^verbatim>\<open>get_prioritized_experience\<close>. \<^verbatim>\<open>mb_states\<close> and
  \<^verbatim>\<open>mb_states_tp1\<close> are arrays of \<^verbatim>\<open>mini_batch\<close> zero rows, written by row; the others
  are lists that grow by \<^verbatim>\<open>append\<close>.
\<close>

record ('s, 'r) minibatch =
  mb_states :: "'s list"
  mb_actions :: "int list"
  mb_rewards :: "'r list"
  mb_states_tp1 :: "'s list"
  mb_terminal :: "int list"
  mb_inds_poped :: "int list"

text \<open>
  One pass of the loop body for the row \<open>exp_i\<close> (the loop variable \<^verbatim>\<open>exp\<close>), on
  the tree and the locals. An exception leaves the loop with the tree as the pops so far
  have made it. The row index is always below \<^verbatim>\<open>mini_batch\<close>, so the row assignments
  are in range.
\<close>

definition gpe_body ::
  "('s, 'r, 'm) experience_handler_scheme \<Rightarrow> nat \<Rightarrow>
   ('p, int) binary_tree \<times> ('s, 'r) minibatch \<Rightarrow>
   (error \<times> ('p, int) binary_tree) + (('p, int) binary_tree \<times> ('s, 'r) minibatch)" where
  "gpe_body b exp_i tm =
     (case tm of (t, mb) \<Rightarrow>
       (case bt_pop_max t of
          Inl err \<Rightarrow> Inl (err, t)
        | Inr ((td_error, exp_ind), t1) \<Rightarrow>
            (let mb1 = mb\<lparr>mb_inds_poped := mb_inds_poped mb @ [exp_ind]\<rparr> in
             (case py_index (states b) exp_ind of
                Inl err \<Rightarrow> Inl (err, t1)
              | Inr st \<Rightarrow>
                  (let mb2 = mb1\<lparr>mb_states := (mb_states mb1)[exp_i := st]\<rparr> in
                   (case (if exp_ind \<in> term_states b
                          then Inr (mb2\<lparr>mb_terminal := mb_terminal mb2 @ [1]\<rparr>)
                          else (case py_index (states b) (exp_ind + 1) of
                                  Inl err \<Rightarrow> Inl err
                                | Inr st1 \<Rightarrow>
                                    Inr (mb2\<lparr>mb_terminal := mb_terminal mb2 @ [0],
                                             mb_states_tp1 := (mb_states_tp1 mb2)[exp_i := st1]\<rparr>))) of
                      Inl err \<Rightarrow> Inl (err, t1)
                    | Inr mb3 \<Rightarrow>
                        (case py_index (actions b) exp_ind of
                           Inl err \<Rightarrow> Inl (err, t1)
                         | Inr a \<Rightarrow>
                             (case py_index (rewards b) exp_ind of
                                Inl err \<Rightarrow> Inl (err, t1)
                              | Inr rw \<Rightarrow>
                                  Inr (t1, mb3\<lparr>mb_actions := mb_actions mb3 @ [a],
                                               mb_rewards := mb_rewards mb3 @ [rw]\<rparr>)))))))))"

text \<open>\<^verbatim>\<open>for exp in range(mini_batch)\<close>.\<close>

fun gpe_loop ::
  "('s, 'r, 'm) experience_handler_scheme \<Rightarrow> nat list \<Rightarrow>
   ('p, int) binary_tree \<times> ('s, 'r) minibatch \<Rightarrow>
   (error \<times> ('p, int) binary_tree) + (('p, int) binary_tree \<times> ('s, 'r) minibatch)" where
  "gpe_loop b [] tm = Inr tm"
| "gpe_loop b (exp_i # exps) tm =
     (case gpe_body b exp_i tm of Inl err \<Rightarrow> Inl err | Inr tm' \<Rightarrow> gpe_loop b exps tm')"

text \<open>
  \<^verbatim>\<open>PrioritizedExperienceHandler.get_prioritized_experience\<close>. The result is the
  returned 6-tuple, each component \<^verbatim>\<open>None\<close> or a value, with the store after the call.
  \<^verbatim>\<open>self.states[0]\<close> raises \<^verbatim>\<open>IndexError\<close> on an empty list, and \<^verbatim>\<open>np.zeros\<close> raises
  \<^verbatim>\<open>ValueError\<close> on a negative dimension.
\<close>

type_synonym ('s, 'r) batch =
  "'s list option \<times> int list option \<times> 'r list option \<times> 's list option \<times>
   int list option \<times> int list option"

definition get_prioritized_experience ::
  "('s::zero, 'r, 'p) prioritized_experience_handler \<Rightarrow> int \<Rightarrow>
   (error \<times> ('s, 'r, 'p) prioritized_experience_handler) +
   (('s, 'r) batch \<times> ('s, 'r, 'p) prioritized_experience_handler)" where
  "get_prioritized_experience s mini_batch =
     (if size_eh s \<le> mini_batch then Inr ((None, None, None, None, None, None), s)
      else
        (case py_index (states s) 0 of
           Inl err \<Rightarrow> Inl (err, s)
         | Inr first_state \<Rightarrow>
             if mini_batch < 0 then Inl (ValueError, s)
             else
               (let mb0 = \<lparr>mb_states = replicate (nat mini_batch) 0, mb_actions = [],
                           mb_rewards = [], mb_states_tp1 = replicate (nat mini_batch) 0,
                           mb_terminal = [], mb_inds_poped = []\<rparr>
                in (case gpe_loop s [0..<nat mini_batch] (tree s, mb0) of
                      Inl (err, t') \<Rightarrow> Inl (err, s\<lparr>tree := t'\<rparr>)
                    | Inr (t', mb) \<Rightarrow>
                        Inr ((Some (mb_states mb), Some (mb_actions mb), Some (mb_rewards mb),
                              Some (mb_states_tp1 mb), Some (mb_terminal mb),
                              Some (mb_inds_poped mb)),
                             s\<lparr>tree := t'\<rparr>)))))"

subsubsection \<open>Observations on a store\<close>

text \<open>The pairs of a tree in the order in which successive \<^verbatim>\<open>pop_max\<close> calls return them.\<close>

definition pop_order :: "('p, 'x) binary_tree \<Rightarrow> ('p \<times> 'x) list" where
  "pop_order t = rev (bt_entries t)"

text \<open>The indices on which \<^verbatim>\<open>xs[i]\<close> does not raise.\<close>

definition valid_index :: "'a list \<Rightarrow> int \<Rightarrow> bool" where
  "valid_index xs i \<longleftrightarrow> - int (length xs) \<le> i \<and> i < int (length xs)"

text \<open>
  An index that one pass of the loop body reads without raising: it is valid for the
  three lists, and it is marked terminal or its successor is valid for the states.
\<close>

definition resolvable :: "('s, 'r, 'm) experience_handler_scheme \<Rightarrow> int \<Rightarrow> bool" where
  "resolvable b i \<longleftrightarrow>
     valid_index (states b) i \<and> valid_index (actions b) i \<and> valid_index (rewards b) i \<and>
     (i \<in> term_states b \<or> valid_index (states b) (i + 1))"

text \<open>The index list of a returned tuple.\<close>

definition batch_inds :: "('s, 'r) batch \<Rightarrow> int list option" where
  "batch_inds bt = (case bt of (_, _, _, _, _, inds) \<Rightarrow> inds)"

text \<open>
  Later calls that insert nothing into the tree: batch draws and \<^verbatim>\<open>trim\<close>. A draw that
  raises leaves the store as the pops so far have made it, and the caller goes on.
  \<open>returned_later\<close> collects the indices that the draws return, in order.
\<close>

datatype store_call = GetBatch int | TrimCall

fun returned_later ::
  "('s::zero, 'r, 'p) prioritized_experience_handler \<Rightarrow> store_call list \<Rightarrow> int list" where
  "returned_later s [] = []"
| "returned_later s (TrimCall # cs) = returned_later (trim s) cs"
| "returned_later s (GetBatch k # cs) =
     (case get_prioritized_experience s k of
        Inl (err, s1) \<Rightarrow> returned_later s1 cs
      | Inr (b, s1) \<Rightarrow>
          (case batch_inds b of
             None \<Rightarrow> returned_later s1 cs
           | Some inds \<Rightarrow> inds @ returned_later s1 cs))"

text \<open>
  Row \<open>j\<close> of the locals is as the terminal handling requires: a terminal index has a
  zero next state and flag 1, any other index has flag 0 and the state at the index plus
  one as next state.
\<close>

definition row_ok :: "('s::zero, 'r, 'm) experience_handler_scheme \<Rightarrow> ('s, 'r) minibatch \<Rightarrow> nat \<Rightarrow> bool" where
  "row_ok b mb j \<longleftrightarrow>
     (if mb_inds_poped mb ! j \<in> term_states b
      then mb_states_tp1 mb ! j = 0 \<and> mb_terminal mb ! j = 1
      else mb_terminal mb ! j = 0 \<and>
           py_index (states b) (mb_inds_poped mb ! j + 1) = Inr (mb_states_tp1 mb ! j))"

section \<open>Properties of the priority tree\<close>

subsection \<open>Entries, rightmost node and ordering\<close>

lemma subtree_entries_simps [simp]:
  "subtree_entries None = []" "subtree_entries (Some n) = entries n"
  by (simp_all add: subtree_entries_def)

lemma entries_Node:
  "entries (Node l v e r) = subtree_entries l @ (v, e) # subtree_entries r"
  by (simp add: subtree_entries_def)

declare entries.simps [simp del]
declare entries_Node [simp]

lemma node_pop_max_spec:
  "node_pop_max n = ((v, e, hl, term), n') \<Longrightarrow>
     (v, e) = spec_rightmost n \<and> (if term then hl else Some n') = spec_splice_max n"
proof (induction n arbitrary: v e hl "term" n' rule: node_pop_max.induct)
  case (1 l v0 e0 r)
  show ?case
  proof (cases r)
    case None
    with "1.prems" show ?thesis by auto
  next
    case (Some rc)
    obtain v1 e1 hl1 t1 rc1 where p: "node_pop_max rc = ((v1, e1, hl1, t1), rc1)"
      by (cases "node_pop_max rc") auto
    from "1.IH"[OF Some p] have ih: "(v1, e1) = spec_rightmost rc"
      "(if t1 then hl1 else Some rc1) = spec_splice_max rc" by simp_all
    from "1.prems" Some p ih show ?thesis by (auto split: if_splits)
  qed
qed

lemma entries_splice:
  "entries n = subtree_entries (spec_splice_max n) @ [spec_rightmost n]"
proof (induction n rule: spec_splice_max.induct)
  case (1 l v e r)
  then show ?case by (cases r) auto
qed

lemma entries_nonempty [simp]: "entries n \<noteq> []"
  by (cases n) simp

lemma rightmost_last: "spec_rightmost n = last (entries n)"
  by (simp add: entries_splice[of n])

lemma bst_opt_simps [simp]: "bst_opt None" "bst_opt (Some n) = bst n"
  by (simp_all add: bst_opt_def)

lemma bst_Node:
  "bst (Node l v e r) =
     (bst_opt l \<and> (\<forall>c \<in> set (subtree_entries l). fst c \<le> v) \<and>
      bst_opt r \<and> (\<forall>c \<in> set (subtree_entries r). v \<le> fst c))"
  by (cases l; cases r) auto

declare bst.simps [simp del]
declare bst_Node [simp]

lemma set_splice_subset: "set (subtree_entries (spec_splice_max n)) \<subseteq> set (entries n)"
  by (simp add: entries_splice[of n] subset_insertI)

lemma bst_splice: "bst n \<Longrightarrow> bst_opt (spec_splice_max n)"
proof (induction n rule: spec_splice_max.induct)
  case (1 l v e r)
  show ?case
  proof (cases r)
    case None
    with "1.prems" show ?thesis by simp
  next
    case (Some rc)
    with "1.prems" "1.IH"[OF Some] set_splice_subset[of rc] show ?thesis by auto
  qed
qed

lemma mset_node_insert: "mset (entries (node_insert n p x)) = add_mset (p, x) (mset (entries n))"
  by (induction n p x rule: node_insert.induct) (auto split: option.splits)

lemma set_node_insert: "set (entries (node_insert n p x)) = insert (p, x) (set (entries n))"
proof -
  have "set_mset (mset (entries (node_insert n p x))) = set_mset (add_mset (p, x) (mset (entries n)))"
    by (simp only: mset_node_insert)
  then show ?thesis by simp
qed


lemma bst_rightmost_max: "bst n \<Longrightarrow> c \<in> set (entries n) \<Longrightarrow> fst c \<le> fst (spec_rightmost n)"
proof (induction n arbitrary: c rule: spec_rightmost.induct)
  case (1 l v e r)
  show ?case
  proof (cases r)
    case None
    with "1.prems" show ?thesis by auto
  next
    case (Some rc)
    have rm: "spec_rightmost rc \<in> set (entries rc)"
      by (simp add: entries_splice[of rc])
    from "1.prems"(1) Some have b: "bst rc" and lo: "\<forall>d \<in> set (subtree_entries l). fst d \<le> v"
      and hi: "\<forall>d \<in> set (entries rc). v \<le> fst d" by simp_all
    from hi rm have vle: "v \<le> fst (spec_rightmost rc)" by blast
    from "1.prems"(2) Some consider "c \<in> set (subtree_entries l)" | "c = (v, e)" | "c \<in> set (entries rc)"
      by auto
    then have "fst c \<le> fst (spec_rightmost rc)"
    proof cases
      case 1
      with lo have "fst c \<le> v" by blast
      with vle show ?thesis by simp
    next
      case 2
      with vle show ?thesis by simp
    next
      case 3
      with "1.IH"[OF Some b] show ?thesis by blast
    qed
    with Some show ?thesis by simp
  qed
qed

lemma equal_priority_descends_right:
  "left (node_insert (Node l v e r) v x) = l \<and> right (node_insert (Node l v e r) v x) \<noteq> None"
  by (cases r) simp_all

lemma bst_node_insert: "bst n \<Longrightarrow> bst (node_insert n p x)"
proof (induction n p x rule: node_insert.induct)
  case (1 l v e r new_val new_extra)
  show ?case
  proof (cases "v \<le> new_val")
    case True
    show ?thesis
    proof (cases r)
      case None
      with True "1.prems" show ?thesis by simp
    next
      case (Some rc)
      from "1.prems" Some have "bst rc" by simp
      with "1.IH"(1)[OF True Some] have "bst (node_insert rc new_val new_extra)" .
      with True Some "1.prems" show ?thesis by (simp add: set_node_insert)
    qed
  next
    case False
    then have lt: "new_val \<le> v" by simp
    show ?thesis
    proof (cases l)
      case None
      with False lt "1.prems" show ?thesis by simp
    next
      case (Some lc)
      from "1.prems" Some have "bst lc" by simp
      with "1.IH"(2)[OF False Some] have "bst (node_insert lc new_val new_extra)" .
      with False lt Some "1.prems" show ?thesis by (simp add: set_node_insert)
    qed
  qed
qed

subsection \<open>BinaryTree operations\<close>

lemma bt_pop_max_empty: "root t = None \<Longrightarrow> bt_pop_max t = Inl AttributeError"
  by (simp add: bt_pop_max_def)

lemma bt_pop_max_node:
  assumes "root t = Some n"
  shows "bt_pop_max t = Inr (spec_rightmost n, t\<lparr>root := spec_splice_max n\<rparr>)"
proof -
  obtain v e hl tm n' where p: "node_pop_max n = ((v, e, hl, tm), n')"
    by (cases "node_pop_max n") auto
  from node_pop_max_spec[OF p] have "(v, e) = spec_rightmost n"
    and "(if tm then hl else Some n') = spec_splice_max n" by simp_all
  with assms p show ?thesis
    by (cases tm) (simp_all add: bt_pop_max_def)
qed

lemma bt_entries_pop:
  "root t = Some n \<Longrightarrow> bt_entries t = bt_entries (t\<lparr>root := spec_splice_max n\<rparr>) @ [spec_rightmost n]"
  by (simp add: bt_entries_def entries_splice[of n])

lemma bt_bst_pop: "root t = Some n \<Longrightarrow> bt_bst t \<Longrightarrow> bt_bst (t\<lparr>root := spec_splice_max n\<rparr>)"
  using bst_splice[of n] by (simp add: bt_bst_def bst_opt_def)

lemma mset_bt_insert: "mset (bt_entries (bt_insert t p x)) = add_mset (p, x) (mset (bt_entries t))"
  by (cases "root t") (simp_all add: bt_insert_def bt_entries_def mset_node_insert)

lemma bt_bst_insert: "bt_bst t \<Longrightarrow> bt_bst (bt_insert t p x)"
  by (cases "root t") (simp_all add: bt_insert_def bt_bst_def bst_node_insert)

lemma bt_bst_init: "bt_bst bt_init"
  by (simp add: bt_bst_def bt_init_def)

lemma bt_entries_init: "bt_entries bt_init = []"
  by (simp add: bt_entries_def bt_init_def)

lemma mset_bt_inserts: "mset (bt_entries (bt_inserts t es)) = mset (bt_entries t) + mset es"
  by (induction t es rule: bt_inserts.induct) (simp_all add: mset_bt_insert)

lemma bt_bst_inserts: "bt_bst t \<Longrightarrow> bt_bst (bt_inserts t es)"
  by (induction t es rule: bt_inserts.induct) (simp_all add: bt_bst_insert)

lemma bt_entries_Nil_iff: "bt_entries t = [] \<longleftrightarrow> root t = None"
  by (cases "root t") (simp_all add: bt_entries_def)

text \<open>
  Claim C1. A tree built by a non-empty sequence of \<^verbatim>\<open>insert\<close> calls has a root, and
  \<^verbatim>\<open>pop_max\<close> on it returns a pair \<open>(p, x)\<close> that was inserted and whose priority is at
  least every inserted priority; afterwards the tree holds the inserted pairs without
  exactly one copy of \<open>(p, x)\<close>. The pair is the one at the end of the rightmost path
  and the new root is the old tree with that node's left subtree in its place
  (\<open>spec_splice_max\<close>: in the parent's right-child slot, or as the root).
\<close>

theorem pop_max_returns_maximum:
  assumes "es \<noteq> []"
  shows "\<exists>n p x t'. root (bt_inserts bt_init es) = Some n
           \<and> bt_pop_max (bt_inserts bt_init es) = Inr ((p, x), t')
           \<and> (p, x) \<in> set es \<and> (\<forall>q \<in> set (map fst es). q \<le> p)
           \<and> mset (bt_entries t') = mset es - {#(p, x)#}
           \<and> (p, x) = spec_rightmost n \<and> root t' = spec_splice_max n"
proof -
  let ?t = "bt_inserts bt_init es"
  have ms: "mset (bt_entries ?t) = mset es"
    by (simp add: mset_bt_inserts bt_entries_init)
  with assms have "bt_entries ?t \<noteq> []" by auto
  then obtain n where n: "root ?t = Some n"
    by (cases "root ?t") (simp_all add: bt_entries_Nil_iff)
  obtain p x where px: "spec_rightmost n = (p, x)" by (cases "spec_rightmost n") auto
  let ?t' = "?t\<lparr>root := spec_splice_max n\<rparr>"
  have pop: "bt_pop_max ?t = Inr ((p, x), ?t')"
    using bt_pop_max_node[OF n] px by simp
  have ent: "bt_entries ?t = bt_entries ?t' @ [(p, x)]"
    using bt_entries_pop[OF n] px by simp
  have "set_mset (mset es) = set_mset (mset (bt_entries ?t))"
    by (simp only: ms)
  then have sets: "set es = set (bt_entries ?t)" by simp
  have mem: "(p, x) \<in> set es"
    unfolding sets by (subst ent) simp
  have b: "bst n"
    using bt_bst_inserts[OF bt_bst_init, of es] n by (simp add: bt_bst_def)
  have en: "bt_entries ?t = entries n" using n by (simp add: bt_entries_def)
  have mx: "\<forall>q \<in> set (map fst es). q \<le> p"
  proof
    fix q assume "q \<in> set (map fst es)"
    then obtain c where c: "c \<in> set es" "q = fst c" by auto
    with sets en have "c \<in> set (entries n)" by simp
    from bst_rightmost_max[OF b this] px c show "q \<le> p" by simp
  qed
  have "mset es = mset (bt_entries ?t' @ [(p, x)])"
    by (simp only: ms[symmetric] ent[symmetric])
  then have "mset es = add_mset (p, x) (mset (bt_entries ?t'))" by simp
  then have rm: "mset (bt_entries ?t') = mset es - {#(p, x)#}" by simp
  from n pop mem mx rm px show ?thesis by auto
qed

theorem pop_max_returns_maximum_witness:
  "[(3::nat, 0::int), (5, 1), (4, 2)] \<noteq> [] \<and>
   bt_pop_max (bt_inserts bt_init [(3::nat, 0::int), (5, 1), (4, 2)]) =
     Inr ((5, 1), \<lparr>root = Some (Node None 3 0 (Some (Node None 4 2 None)))\<rparr>)"
  using pop_max_returns_maximum[of "[(3::nat, 0::int), (5, 1), (4, 2)]"]
  by (simp add: bt_init_def bt_insert_def bt_pop_max_def)

lemma bt_run_bst:
  "bt_bst t \<Longrightarrow> bt_run t ops = Inr (outs, t') \<Longrightarrow> bt_bst t'"
proof (induction t ops arbitrary: outs t' rule: bt_run.induct)
  case (1 t)
  then show ?case by simp
next
  case (2 t p x ops)
  from "2.prems"(2) have r: "bt_run (bt_insert t p x) ops = Inr (outs, t')" by simp
  from "2.IH"[OF bt_bst_insert[OF "2.prems"(1)] r] show ?case .
next
  case (3 t ops)
  show ?case
  proof (cases "root t")
    case None
    with "3.prems" show ?thesis by (simp add: bt_pop_max_empty)
  next
    case (Some n)
    let ?t1 = "t\<lparr>root := spec_splice_max n\<rparr>"
    have pop: "bt_pop_max t = Inr (spec_rightmost n, ?t1)" by (rule bt_pop_max_node[OF Some])
    have "\<exists>outs1. bt_run ?t1 ops = Inr (outs1, t')"
    proof (cases "bt_run ?t1 ops")
      case (Inl err)
      with "3.prems"(2) pop show ?thesis by simp
    next
      case (Inr res)
      with "3.prems"(2) pop show ?thesis by (cases res) simp
    qed
    then obtain outs1 where r: "bt_run ?t1 ops = Inr (outs1, t')" ..
    have "bt_bst ?t1" using bt_bst_pop[OF Some "3.prems"(1)] .
    from "3.IH"[OF pop refl this r] show ?thesis .
  qed
qed

text \<open>
  Claim C2. Every tree reached from the empty tree by a sequence of \<^verbatim>\<open>insert\<close> and
  \<^verbatim>\<open>pop_max\<close> calls satisfies the ordering invariant: at every node the left subtree's
  priorities are at most the node's and the right subtree's at least the node's.
\<close>

theorem reachable_tree_is_ordered:
  "bt_run bt_init ops = Inr (outs, t) \<Longrightarrow> bt_bst t"
  using bt_run_bst[OF bt_bst_init] .

theorem reachable_tree_is_ordered_witness:
  "bt_run bt_init [Insert (3::nat) (0::int), Insert 5 1, Insert 4 2, PopMax, Insert 4 3] =
     Inr ([(5, 1)], \<lparr>root = Some (Node None 3 0 (Some (Node None 4 2 (Some (Node None 4 3 None)))))\<rparr>)
   \<and> bt_bst \<lparr>root = Some (Node None (3::nat) (0::int) (Some (Node None 4 2 (Some (Node None 4 3 None)))))\<rparr>"
proof -
  have r: "bt_run bt_init [Insert (3::nat) (0::int), Insert 5 1, Insert 4 2, PopMax, Insert 4 3] =
     Inr ([(5, 1)], \<lparr>root = Some (Node None 3 0 (Some (Node None 4 2 (Some (Node None 4 3 None)))))\<rparr>)"
    by (simp add: bt_init_def bt_insert_def bt_pop_max_def)
  from r reachable_tree_is_ordered[OF r] show ?thesis by simp
qed

subsection \<open>Ties among maximal priorities\<close>

lemma desc_insert_pass:
  "\<forall>d \<in> set A. fst c < fst d \<Longrightarrow> desc_insert c (A @ B) = A @ desc_insert c B"
  by (induction A) auto

lemma desc_insert_stop:
  "fst y \<le> fst c \<Longrightarrow> desc_insert c (A @ y # B) = desc_insert c A @ y # B"
  by (induction A) auto

lemma rev_entries_insert:
  "bst n \<Longrightarrow> rev (entries (node_insert n p x)) = desc_insert (p, x) (rev (entries n))"
proof (induction n p x rule: node_insert.induct)
  case (1 l v e r new_val new_extra)
  let ?c = "(new_val, new_extra)"
  show ?case
  proof (cases "v \<le> new_val")
    case True
    then have stop: "fst (v, e) \<le> fst ?c" by simp
    show ?thesis
    proof (cases r)
      case None
      with True show ?thesis by simp
    next
      case (Some rc)
      from "1.prems" Some have "bst rc" by simp
      from "1.IH"(1)[OF True Some this]
      have ih: "rev (entries (node_insert rc new_val new_extra)) = desc_insert ?c (rev (entries rc))" .
      from True Some ih desc_insert_stop[OF stop, of "rev (entries rc)" "rev (subtree_entries l)"]
      show ?thesis by simp
    qed
  next
    case False
    then have lt: "new_val < v" by simp
    from "1.prems" have "\<forall>d \<in> set (subtree_entries r). v \<le> fst d" by simp
    with lt have "\<forall>d \<in> set (rev (subtree_entries r) @ [(v, e)]). fst ?c < fst d" by auto
    note pass = desc_insert_pass[OF this]
    show ?thesis
    proof (cases l)
      case None
      with False pass[of "[]"] show ?thesis by simp
    next
      case (Some lc)
      from "1.prems" Some have "bst lc" by simp
      from "1.IH"(2)[OF False Some this]
      have ih: "rev (entries (node_insert lc new_val new_extra)) = desc_insert ?c (rev (entries lc))" .
      from False Some ih pass[of "rev (entries lc)"] show ?thesis by simp
    qed
  qed
qed

lemma max_priority_Cons:
  "max_priority (c # es) = (if es = [] then fst c else max (fst c) (max_priority es))"
  by (simp add: max_priority_def)

lemma desc_sort_Nil_iff [simp]: "desc_sort es = [] \<longleftrightarrow> es = []"
proof (cases es)
  case Nil then show ?thesis by simp
next
  case (Cons c es')
  then show ?thesis by (cases "desc_sort es'") auto
qed

lemma lifo_pop_desc_sort:
  "es \<noteq> [] \<Longrightarrow> \<exists>c es'. lifo_pop es = Some (c, es') \<and> desc_sort es = c # desc_sort es'
                        \<and> fst c = max_priority es"
proof (induction es)
  case Nil
  then show ?case by simp
next
  case (Cons a es)
  show ?case
  proof (cases "es = []")
    case True
    then show ?thesis by (simp add: lifo_pop_def max_priority_Cons)
  next
    case False
    from Cons.IH[OF False] obtain c es' where
      pop: "lifo_pop es = Some (c, es')" and ds: "desc_sort es = c # desc_sort es'"
      and mx: "fst c = max_priority es" by blast
    show ?thesis
    proof (cases "fst c \<le> fst a")
      case True
      with False mx have m: "max_priority (a # es) = fst a" by (simp add: max_priority_Cons max_def)
      have "lifo_pop (a # es) = Some (a, es)" by (simp add: lifo_pop_def m)
      moreover have "desc_sort (a # es) = a # desc_sort es" using ds True by simp
      ultimately show ?thesis using m by simp
    next
      case gt: False
      then have lt: "fst a < max_priority es" using mx by simp
      with False have m: "max_priority (a # es) = max_priority es"
        using less_imp_le[OF lt] by (simp add: max_priority_Cons max_def)
      from gt mx have ne: "fst a \<noteq> max_priority es" by auto
      from pop have f: "find (\<lambda>d. fst d = max_priority es) es = Some c"
        and r: "es' = remove_first (\<lambda>d. fst d = max_priority es) es"
        by (auto simp: lifo_pop_def split: option.splits)
      have "lifo_pop (a # es) = Some (c, a # es')" using f r ne by (simp add: lifo_pop_def m)
      moreover have "desc_sort (a # es) = c # desc_sort (a # es')" using ds gt by simp
      ultimately show ?thesis using m mx by simp
    qed
  qed
qed

lemma lifo_pop_Nil: "lifo_pop [] = None"
  by (simp add: lifo_pop_def)

lemma rev_bt_entries_insert:
  "bt_bst t \<Longrightarrow> rev (bt_entries (bt_insert t p x)) = desc_insert (p, x) (rev (bt_entries t))"
  by (cases "root t") (simp_all add: bt_insert_def bt_bst_def bt_entries_def rev_entries_insert)

lemma bt_run_lifo:
  "bt_bst t \<Longrightarrow> rev (bt_entries t) = desc_sort es \<Longrightarrow>
     map_sum id fst (bt_run t ops) = lifo_run es ops"
proof (induction t ops arbitrary: es rule: bt_run.induct)
  case (1 t)
  then show ?case by simp
next
  case (2 t p x ops)
  have b: "bt_bst (bt_insert t p x)" by (rule bt_bst_insert[OF "2.prems"(1)])
  have "rev (bt_entries (bt_insert t p x)) = desc_sort ((p, x) # es)"
    using rev_bt_entries_insert[OF "2.prems"(1), of p x] "2.prems"(2) by simp
  from "2.IH"[OF b this] show ?case by simp
next
  case (3 t ops)
  show ?case
  proof (cases "root t")
    case None
    then have "bt_entries t = []" by (simp add: bt_entries_Nil_iff)
    with "3.prems"(2) have "desc_sort es = []" by simp
    then have "es = []" by simp
    with None show ?thesis by (simp add: bt_pop_max_empty lifo_pop_Nil)
  next
    case (Some n)
    let ?t1 = "t\<lparr>root := spec_splice_max n\<rparr>"
    have pop: "bt_pop_max t = Inr (spec_rightmost n, ?t1)" by (rule bt_pop_max_node[OF Some])
    have ent: "rev (bt_entries t) = spec_rightmost n # rev (bt_entries ?t1)"
      by (subst bt_entries_pop[OF Some]) simp
    with "3.prems"(2) have ds: "desc_sort es = spec_rightmost n # rev (bt_entries ?t1)" by simp
    then have "es \<noteq> []" by auto
    from lifo_pop_desc_sort[OF this] obtain c es' where
      lp: "lifo_pop es = Some (c, es')" and ds': "desc_sort es = c # desc_sort es'" by blast
    from ds ds' have c: "c = spec_rightmost n" and r: "rev (bt_entries ?t1) = desc_sort es'"
      by simp_all
    have b: "bt_bst ?t1" by (rule bt_bst_pop[OF Some "3.prems"(1)])
    from "3.IH"[OF pop refl b r] have ih: "map_sum id fst (bt_run ?t1 ops) = lifo_run es' ops" .
    show ?thesis
    proof (cases "bt_run ?t1 ops")
      case (Inl err)
      with ih pop lp c show ?thesis by (cases "lifo_run es' ops") simp_all
    next
      case (Inr res)
      with ih pop lp c show ?thesis
        by (cases res; cases "lifo_run es' ops") simp_all
    qed
  qed
qed

text \<open>
  Claim C10. On every sequence of \<^verbatim>\<open>insert\<close> and \<^verbatim>\<open>pop_max\<close> calls from the empty tree,
  the pairs popped by the tree are those popped by \<open>lifo_run\<close>, the queue in which a pop
  takes, among the entries of maximal priority, the most recently inserted one; both
  raise at the same call when a pop meets an empty tree.
\<close>

theorem equal_maxima_pop_lifo:
  "map_sum id fst (bt_run bt_init ops) = lifo_run [] ops"
  by (rule bt_run_lifo[OF bt_bst_init]) (simp add: bt_entries_init)

theorem equal_maxima_pop_lifo_witness:
  "map_sum id fst (bt_run bt_init
      [Insert (\<infinity>::enat) (0::int), Insert \<infinity> 1, Insert 2 5, Insert \<infinity> 2,
       PopMax, PopMax, Insert 2 6, PopMax, PopMax, PopMax]) =
   Inr [(\<infinity>, 2), (\<infinity>, 1), (\<infinity>, 0), (2, 6), (2, 5)]"
proof -
  have "lifo_run []
      [Insert (\<infinity>::enat) (0::int), Insert \<infinity> 1, Insert 2 5, Insert \<infinity> 2,
       PopMax, PopMax, Insert 2 6, PopMax, PopMax, PopMax] =
   Inr [(\<infinity>, 2), (\<infinity>, 1), (\<infinity>, 0), (2, 6), (2, 5)]"
    by (simp add: lifo_pop_def max_priority_Cons)
  with equal_maxima_pop_lifo[of "[Insert (\<infinity>::enat) (0::int), Insert \<infinity> 1, Insert 2 5, Insert \<infinity> 2,
       PopMax, PopMax, Insert 2 6, PopMax, PopMax, PopMax]"]
  show ?thesis by simp
qed

section \<open>Properties of the experience store\<close>

lemma tree_eh_add_experience: "tree (snd (eh_add_experience s st a r)) = tree s"
  by (simp add: eh_add_experience_def Let_def)

lemma tree_eh_add_terminal: "tree (eh_add_terminal s) = tree s"
  by (simp add: eh_add_terminal_def)

lemma tree_trim: "tree (trim s) = tree s"
  by (simp add: trim_def eh_trim_def Let_def)

text \<open>
  Claim C3. Let \<open>insert_ind\<close> be the index that the buffer append returns. When it is
  greater than 1, \<^verbatim>\<open>add_experience\<close> adds exactly one entry to the tree, of priority
  \<open>top\<close> (\<^verbatim>\<open>np.inf\<close>) and payload \<open>insert_ind - 2\<close>; otherwise the tree is unchanged.
  \<^verbatim>\<open>add_terminal\<close> adds exactly one entry, of priority \<open>top\<close> and payload the buffer
  size minus 1.
\<close>

theorem add_registers_one_entry:
  fixes s :: "('s, 'r, 'p::{linorder, order_top}) prioritized_experience_handler"
  shows "(let insert_ind = fst (eh_add_experience s st a r);
              t' = tree (add_experience s st a r)
          in if insert_ind > 1
             then mset (bt_entries t') = add_mset (top, insert_ind - 2) (mset (bt_entries (tree s)))
             else t' = tree s)
         \<and> mset (bt_entries (tree (add_terminal s))) =
             add_mset (top, size_eh (add_terminal s) - 1) (mset (bt_entries (tree s)))"
proof -
  obtain ind s1 where e: "eh_add_experience s st a r = (ind, s1)"
    by (cases "eh_add_experience s st a r") auto
  with tree_eh_add_experience[of s st a r] have t1: "tree s1 = tree s" by simp
  have A: "(let insert_ind = fst (eh_add_experience s st a r);
              t' = tree (add_experience s st a r)
          in if insert_ind > 1
             then mset (bt_entries t') = add_mset (top, insert_ind - 2) (mset (bt_entries (tree s)))
             else t' = tree s)"
    using e t1 by (simp add: add_experience_def mset_bt_insert)
  have B: "mset (bt_entries (tree (add_terminal s))) =
             add_mset (top, size_eh (add_terminal s) - 1) (mset (bt_entries (tree s)))"
    by (simp add: add_terminal_def Let_def mset_bt_insert tree_eh_add_terminal)
  from A B show ?thesis by simp
qed

theorem add_registers_one_entry_witness:
  "tree (add_experience (peh_init 5 :: (int, int, enat) prioritized_experience_handler) 10 0 1)
     = bt_init
   \<and> mset (bt_entries (tree (add_experience (add_experience
        (peh_init 5 :: (int, int, enat) prioritized_experience_handler) 10 0 1) 11 1 2)))
     = {#(\<infinity>, 0)#}
   \<and> mset (bt_entries (tree (add_terminal (add_experience
        (peh_init 5 :: (int, int, enat) prioritized_experience_handler) 10 0 1))))
     = {#(\<infinity>, 0)#}"
proof -
  let ?s0 = "peh_init 5 :: (int, int, enat) prioritized_experience_handler"
  let ?s1 = "add_experience ?s0 10 0 1"
  have i1: "fst (eh_add_experience ?s0 10 0 1) = 1" by code_simp
  have i2: "fst (eh_add_experience ?s1 11 1 2) = 2" by code_simp
  have e0: "bt_entries (tree ?s0) = []" by code_simp
  have sz: "size_eh (add_terminal ?s1) = 1" by code_simp
  from add_registers_one_entry[of ?s0 10 0 1] i1 e0
  have a: "tree ?s1 = bt_init" "mset (bt_entries (tree (add_terminal ?s0))) = {#(top, size_eh (add_terminal ?s0) - 1)#}"
    by (simp_all add: Let_def peh_init_def)
  then have e1: "bt_entries (tree ?s1) = []" by (simp add: bt_entries_init)
  from add_registers_one_entry[of ?s1 11 1 2] i2 e1 sz
  have "mset (bt_entries (tree (add_experience ?s1 11 1 2))) = {#(top, 0)#}"
    "mset (bt_entries (tree (add_terminal ?s1))) = {#(top, 0)#}"
    by (simp_all add: Let_def)
  with a(1) show ?thesis by (simp add: top_enat_def)
qed

text \<open>
  Claim C7. \<^verbatim>\<open>get_prioritized_experience\<close> returns the tuple of six \<^verbatim>\<open>None\<close>, as a
  normal return value, if and only if the buffer size is at most \<^verbatim>\<open>mini_batch\<close>.
\<close>

theorem insufficient_data_iff:
  "size_eh s \<le> mini_batch \<longleftrightarrow>
     (\<exists>s'. get_prioritized_experience s mini_batch = Inr ((None, None, None, None, None, None), s'))"
  by (auto simp: get_prioritized_experience_def Let_def split: sum.splits prod.splits)

theorem insufficient_data_iff_witness:
  "get_prioritized_experience
     (\<lparr>states = [10], actions = [0], rewards = [1], term_states = {}, size_eh = 1, max_len = 5,
       tree = \<lparr>root = None\<rparr>\<rparr> :: (int, int, enat) prioritized_experience_handler) 1 =
   Inr ((None, None, None, None, None, None),
        \<lparr>states = [10], actions = [0], rewards = [1], term_states = {}, size_eh = 1, max_len = 5,
         tree = \<lparr>root = None\<rparr>\<rparr>)
   \<and> get_prioritized_experience
     (\<lparr>states = [10, 11], actions = [0, 1], rewards = [1, 2], term_states = {}, size_eh = 2,
       max_len = 5, tree = \<lparr>root = Some (Node None \<infinity> 0 None)\<rparr>\<rparr>
      :: (int, int, enat) prioritized_experience_handler) 1 =
   Inr ((Some [10], Some [0], Some [1], Some [11], Some [0], Some [0]),
        \<lparr>states = [10, 11], actions = [0, 1], rewards = [1, 2], term_states = {}, size_eh = 2,
         max_len = 5, tree = \<lparr>root = None\<rparr>\<rparr>)"
proof -
  let ?s1 = "\<lparr>states = [10], actions = [0], rewards = [1], term_states = {}, size_eh = 1, max_len = 5,
       tree = \<lparr>root = None\<rparr>\<rparr> :: (int, int, enat) prioritized_experience_handler"
  have "size_eh ?s1 \<le> 1" by simp
  with insufficient_data_iff[of ?s1 1] obtain s' where
    r: "get_prioritized_experience ?s1 1 = Inr ((None, None, None, None, None, None), s')" by blast
  have "snd (projr (get_prioritized_experience ?s1 1)) = ?s1" by code_simp
  with r have "s' = ?s1" by simp
  with r have A: "get_prioritized_experience ?s1 1 = Inr ((None, None, None, None, None, None), ?s1)"
    by simp
  have B: "get_prioritized_experience
     (\<lparr>states = [10, 11], actions = [0, 1], rewards = [1, 2], term_states = {}, size_eh = 2,
       max_len = 5, tree = \<lparr>root = Some (Node None \<infinity> 0 None)\<rparr>\<rparr>
      :: (int, int, enat) prioritized_experience_handler) 1 =
   Inr ((Some [10], Some [0], Some [1], Some [11], Some [0], Some [0]),
        \<lparr>states = [10, 11], actions = [0, 1], rewards = [1, 2], term_states = {}, size_eh = 2,
         max_len = 5, tree = \<lparr>root = None\<rparr>\<rparr>)" by code_simp
  from A B show ?thesis by (rule conjI)
qed

text \<open>
  Claim C9. When the buffer size is at most \<^verbatim>\<open>mini_batch\<close> the call returns six
  \<^verbatim>\<open>None\<close> and the store after the call is the store before it: nothing is popped and
  neither the tree nor the buffer changes.
\<close>

theorem insufficient_data_unchanged:
  "size_eh s \<le> mini_batch \<Longrightarrow>
     get_prioritized_experience s mini_batch = Inr ((None, None, None, None, None, None), s)"
  by (simp add: get_prioritized_experience_def)

theorem insufficient_data_unchanged_witness:
  "get_prioritized_experience
     (\<lparr>states = [10, 11], actions = [0, 1], rewards = [1, 2], term_states = {}, size_eh = 2,
       max_len = 5, tree = \<lparr>root = Some (Node None \<infinity> 0 None)\<rparr>\<rparr>
      :: (int, int, enat) prioritized_experience_handler) 2 =
   Inr ((None, None, None, None, None, None),
        \<lparr>states = [10, 11], actions = [0, 1], rewards = [1, 2], term_states = {}, size_eh = 2,
         max_len = 5, tree = \<lparr>root = Some (Node None \<infinity> 0 None)\<rparr>\<rparr>)"
  by (rule insufficient_data_unchanged) simp

lemma py_index_valid: "valid_index xs i \<Longrightarrow> \<exists>v. py_index xs i = Inr v"
  by (auto simp: py_index_def valid_index_def)

lemma py_index_Inr: "py_index xs i = Inr v \<Longrightarrow> valid_index xs i"
  by (auto simp: py_index_def valid_index_def split: if_splits)

lemma py_index_invalid: "\<not> valid_index xs i \<Longrightarrow> py_index xs i = Inl IndexError"
  by (auto simp: py_index_def valid_index_def)

lemma py_index_Inl: "py_index xs i = Inl err \<Longrightarrow> err = IndexError"
  by (auto simp: py_index_def split: if_splits)

lemma pop_order_Nil: "pop_order t = [] \<Longrightarrow> bt_pop_max t = Inl AttributeError"
  by (simp add: pop_order_def bt_entries_Nil_iff bt_pop_max_empty)

lemma bt_pop_max_Inr: "bt_pop_max t = Inr (c, t1) \<Longrightarrow> pop_order t = c # pop_order t1"
proof (cases "root t")
  case None
  assume "bt_pop_max t = Inr (c, t1)"
  with None show ?thesis by (simp add: bt_pop_max_empty)
next
  case (Some n)
  assume "bt_pop_max t = Inr (c, t1)"
  with bt_pop_max_node[OF Some] have "c = spec_rightmost n" "t1 = t\<lparr>root := spec_splice_max n\<rparr>"
    by simp_all
  with bt_entries_pop[OF Some] show ?thesis by (simp add: pop_order_def)
qed

lemma bt_pop_max_Inl: "bt_pop_max t = Inl err \<Longrightarrow> err = AttributeError \<and> pop_order t = []"
proof (cases "root t")
  case None
  assume "bt_pop_max t = Inl err"
  with None show ?thesis by (simp add: bt_pop_max_empty pop_order_def bt_entries_Nil_iff)
next
  case (Some n)
  assume "bt_pop_max t = Inl err"
  with bt_pop_max_node[OF Some] show ?thesis by simp
qed

lemma pop_order_Cons: "pop_order t = c # cs \<Longrightarrow> \<exists>t1. bt_pop_max t = Inr (c, t1) \<and> pop_order t1 = cs"
proof (cases "bt_pop_max t")
  case (Inl err)
  assume "pop_order t = c # cs"
  with bt_pop_max_Inl[OF Inl] show ?thesis by simp
next
  case (Inr res)
  assume p: "pop_order t = c # cs"
  obtain c' t1 where res: "res = (c', t1)" by (cases res) auto
  with Inr bt_pop_max_Inr[of t c' t1] p show ?thesis by simp
qed

lemma gpe_body_Inr:
  assumes "gpe_body b i (t, mb) = Inr (t1, mb1)"
  shows "\<exists>td ind. bt_pop_max t = Inr ((td, ind), t1) \<and> resolvable b ind
           \<and> mb_inds_poped mb1 = mb_inds_poped mb @ [ind]
           \<and> (if ind \<in> term_states b
               then mb_terminal mb1 = mb_terminal mb @ [1] \<and> mb_states_tp1 mb1 = mb_states_tp1 mb
               else mb_terminal mb1 = mb_terminal mb @ [0] \<and>
                    (\<exists>st1. py_index (states b) (ind + 1) = Inr st1 \<and>
                           mb_states_tp1 mb1 = (mb_states_tp1 mb)[i := st1]))"
proof (cases "bt_pop_max t")
  case (Inl err)
  with assms show ?thesis by (simp add: gpe_body_def)
next
  case (Inr res)
  obtain td ind t2 where res: "res = ((td, ind), t2)" by (cases res) auto
  note pop = Inr[unfolded res]
  from assms pop obtain st where st: "py_index (states b) ind = Inr st"
    by (cases "py_index (states b) ind") (simp_all add: gpe_body_def)
  from assms pop st obtain a where a: "py_index (actions b) ind = Inr a"
    by (cases "py_index (actions b) ind")
       (auto simp: gpe_body_def Let_def split: sum.splits if_splits)
  from assms pop st a obtain rw where rw: "py_index (rewards b) ind = Inr rw"
    by (cases "py_index (rewards b) ind")
       (auto simp: gpe_body_def Let_def split: sum.splits if_splits)
  show ?thesis
  proof (cases "ind \<in> term_states b")
    case True
    with assms pop st a rw have "t1 = t2" and
      "mb1 = mb\<lparr>mb_inds_poped := mb_inds_poped mb @ [ind], mb_states := (mb_states mb)[i := st],
                 mb_terminal := mb_terminal mb @ [1], mb_actions := mb_actions mb @ [a],
                 mb_rewards := mb_rewards mb @ [rw]\<rparr>"
      by (simp_all add: gpe_body_def Let_def)
    with True pop st a rw show ?thesis
      by (simp add: resolvable_def py_index_Inr)
  next
    case False
    from assms pop st False obtain st1 where st1: "py_index (states b) (ind + 1) = Inr st1"
      by (cases "py_index (states b) (ind + 1)") (simp_all add: gpe_body_def Let_def)
    with assms pop st a rw False have "t1 = t2" and
      "mb1 = mb\<lparr>mb_inds_poped := mb_inds_poped mb @ [ind], mb_states := (mb_states mb)[i := st],
                 mb_terminal := mb_terminal mb @ [0],
                 mb_states_tp1 := (mb_states_tp1 mb)[i := st1],
                 mb_actions := mb_actions mb @ [a],
                 mb_rewards := mb_rewards mb @ [rw]\<rparr>"
      by (simp_all add: gpe_body_def Let_def)
    with False pop st a rw st1 show ?thesis
      by (simp add: resolvable_def py_index_Inr)
  qed
qed

lemma gpe_body_resolvable:
  assumes "bt_pop_max t = Inr ((td, ind), t1)" and "resolvable b ind"
  shows "\<exists>mb1. gpe_body b i (t, mb) = Inr (t1, mb1)"
proof -
  from assms(2) obtain st a rw where
    st: "py_index (states b) ind = Inr st" and a: "py_index (actions b) ind = Inr a"
    and rw: "py_index (rewards b) ind = Inr rw"
    using py_index_valid unfolding resolvable_def by metis
  show ?thesis
  proof (cases "ind \<in> term_states b")
    case True
    with assms(1) st a rw show ?thesis by (simp add: gpe_body_def Let_def)
  next
    case False
    with assms(2) have "valid_index (states b) (ind + 1)" by (simp add: resolvable_def)
    then obtain st1 where "py_index (states b) (ind + 1) = Inr st1"
      using py_index_valid by blast
    with False assms(1) st a rw show ?thesis by (simp add: gpe_body_def Let_def)
  qed
qed

lemma gpe_body_Inl:
  assumes "gpe_body b i (t, mb) = Inl (err, t')"
  shows "(err = AttributeError \<and> pop_order t = []) \<or> err = IndexError"
proof (cases "bt_pop_max t")
  case (Inl e)
  with assms bt_pop_max_Inl[OF Inl] show ?thesis by (simp add: gpe_body_def)
next
  case (Inr res)
  obtain td ind t2 where res: "res = ((td, ind), t2)" by (cases res) auto
  note pop = Inr[unfolded res]
  from assms pop have "err = IndexError"
    by (auto simp: gpe_body_def Let_def split: sum.splits if_splits dest: py_index_Inl)
  then show ?thesis ..
qed

lemma gpe_body_unresolvable:
  assumes "bt_pop_max t = Inr ((td, ind), t1)" and "\<not> resolvable b ind"
  shows "gpe_body b i (t, mb) = Inl (IndexError, t1)"
proof (cases "gpe_body b i (t, mb)")
  case (Inl res)
  obtain err t2 where res: "res = (err, t2)" by (cases res) auto
  from bt_pop_max_Inr[OF assms(1)] have ne: "pop_order t \<noteq> []" by simp
  from gpe_body_Inl[OF Inl[unfolded res]] ne have e: "err = IndexError" by simp
  from Inl res assms(1) have "t2 = t1"
    by (auto simp: gpe_body_def Let_def split: sum.splits if_splits)
  with Inl res e show ?thesis by simp
next
  case (Inr res)
  obtain t2 mb1 where res: "res = (t2, mb1)" by (cases res) auto
  from gpe_body_Inr[OF Inr[unfolded res]] assms show ?thesis by auto
qed

lemma gpe_body_Inl_tree:
  assumes "gpe_body b i (t, mb) = Inl (err, t')"
  shows "pop_order t' = pop_order t \<or> pop_order t' = tl (pop_order t)"
proof (cases "bt_pop_max t")
  case (Inl e)
  with assms show ?thesis by (simp add: gpe_body_def)
next
  case (Inr res)
  obtain td ind t2 where res: "res = ((td, ind), t2)" by (cases res) auto
  note pop = Inr[unfolded res]
  from assms pop have "t' = t2"
    by (auto simp: gpe_body_def Let_def split: sum.splits if_splits)
  with bt_pop_max_Inr[OF pop] show ?thesis by simp
qed

lemma gpe_loop_Inr:
  "gpe_loop b exps (t, mb) = Inr (t', mb') \<Longrightarrow>
     length exps \<le> length (pop_order t)
     \<and> mb_inds_poped mb' = mb_inds_poped mb @ map snd (take (length exps) (pop_order t))
     \<and> pop_order t' = drop (length exps) (pop_order t)"
proof (induction exps arbitrary: t mb)
  case Nil
  then show ?case by simp
next
  case (Cons i exps)
  from Cons.prems obtain t1 mb1 where
    body: "gpe_body b i (t, mb) = Inr (t1, mb1)" and rest: "gpe_loop b exps (t1, mb1) = Inr (t', mb')"
    by (cases "gpe_body b i (t, mb)") auto
  from gpe_body_Inr[OF body] obtain td ind where
    pop: "bt_pop_max t = Inr ((td, ind), t1)"
    and inds: "mb_inds_poped mb1 = mb_inds_poped mb @ [ind]" by blast
  from bt_pop_max_Inr[OF pop] have po: "pop_order t = (td, ind) # pop_order t1" .
  from Cons.IH[OF rest] inds po show ?case by simp
qed

lemma gpe_loop_resolvable:
  "length exps \<le> length (pop_order t) \<Longrightarrow>
   \<forall>c \<in> set (take (length exps) (pop_order t)). resolvable b (snd c) \<Longrightarrow>
   \<exists>t' mb'. gpe_loop b exps (t, mb) = Inr (t', mb')"
proof (induction exps arbitrary: t mb)
  case Nil
  then show ?case by simp
next
  case (Cons i exps)
  from Cons.prems(1) obtain c cs where po: "pop_order t = c # cs"
    by (cases "pop_order t") auto
  obtain td ind where c: "c = (td, ind)" by (cases c) auto
  from pop_order_Cons[OF po] c obtain t1 where
    pop: "bt_pop_max t = Inr ((td, ind), t1)" and po1: "pop_order t1 = cs" by blast
  from Cons.prems(2) po c have "resolvable b ind" by simp
  from gpe_body_resolvable[OF pop this] obtain mb1 where
    body: "gpe_body b i (t, mb) = Inr (t1, mb1)" by blast
  from Cons.prems po po1 have "length exps \<le> length (pop_order t1)"
    and "\<forall>c \<in> set (take (length exps) (pop_order t1)). resolvable b (snd c)" by simp_all
  from Cons.IH[OF this] obtain t' mb' where "gpe_loop b exps (t1, mb1) = Inr (t', mb')" by blast
  with body show ?case by simp
qed

lemma gpe_loop_first_unresolvable:
  "j < length exps \<Longrightarrow> j < length (pop_order t) \<Longrightarrow>
   \<not> resolvable b (snd (pop_order t ! j)) \<Longrightarrow>
   \<exists>t' n. gpe_loop b exps (t, mb) = Inl (IndexError, t') \<and> n \<le> j
          \<and> \<not> resolvable b (snd (pop_order t ! n))
          \<and> (\<forall>i<n. resolvable b (snd (pop_order t ! i)))
          \<and> pop_order t' = drop (Suc n) (pop_order t)"
proof (induction exps arbitrary: t mb j)
  case Nil
  then show ?case by simp
next
  case (Cons i exps)
  from Cons.prems(2) obtain c cs where po: "pop_order t = c # cs"
    by (cases "pop_order t") auto
  obtain td ind where c: "c = (td, ind)" by (cases c) auto
  from pop_order_Cons[OF po] c obtain t1 where
    pop: "bt_pop_max t = Inr ((td, ind), t1)" and po1: "pop_order t1 = cs" by blast
  show ?case
  proof (cases "resolvable b ind")
    case False
    from gpe_body_unresolvable[OF pop False]
    have "gpe_loop b (i # exps) (t, mb) = Inl (IndexError, t1)" by simp
    moreover have "\<not> resolvable b (snd (pop_order t ! 0))" using False po c by simp
    moreover have "pop_order t1 = drop (Suc 0) (pop_order t)" using po po1 by simp
    ultimately show ?thesis by (intro exI[of _ t1] exI[of _ 0]) simp
  next
    case True
    from gpe_body_resolvable[OF pop True] obtain mb1 where
      body: "gpe_body b i (t, mb) = Inr (t1, mb1)" by blast
    from True Cons.prems(3) po c obtain j' where j: "j = Suc j'" by (cases j) auto
    from Cons.prems j po po1 have "j' < length exps" "j' < length (pop_order t1)"
      "\<not> resolvable b (snd (pop_order t1 ! j'))" by simp_all
    from Cons.IH[OF this, of mb1] obtain t' n where
      r: "gpe_loop b exps (t1, mb1) = Inl (IndexError, t')" and n: "n \<le> j'"
      and un: "\<not> resolvable b (snd (pop_order t1 ! n))"
      and al: "\<forall>i<n. resolvable b (snd (pop_order t1 ! i))"
      and dr: "pop_order t' = drop (Suc n) (pop_order t1)" by blast
    have a: "gpe_loop b (i # exps) (t, mb) = Inl (IndexError, t')" using body r by simp
    have b: "Suc n \<le> j" using n j by simp
    have c': "\<not> resolvable b (snd (pop_order t ! Suc n))" using un po po1 by simp
    have d: "\<forall>i<Suc n. resolvable b (snd (pop_order t ! i))"
    proof (intro allI impI)
      fix i' assume "i' < Suc n"
      then show "resolvable b (snd (pop_order t ! i'))"
        using al True po po1 c by (cases i') auto
    qed
    have e: "pop_order t' = drop (Suc (Suc n)) (pop_order t)" using dr po po1 by simp
    from a b c' d e show ?thesis by blast
  qed
qed

lemma gpe_loop_Inl_tree:
  "gpe_loop b exps (t, mb) = Inl (err, t') \<Longrightarrow> \<exists>n. pop_order t' = drop n (pop_order t)"
proof (induction exps arbitrary: t mb)
  case Nil
  then show ?case by simp
next
  case (Cons i exps)
  show ?case
  proof (cases "gpe_body b i (t, mb)")
    case (Inl res)
    with Cons.prems have body: "gpe_body b i (t, mb) = Inl (err, t')" by simp
    from gpe_body_Inl_tree[OF body] show ?thesis
    proof
      assume "pop_order t' = pop_order t"
      then have "pop_order t' = drop 0 (pop_order t)" by simp
      then show ?thesis ..
    next
      assume "pop_order t' = tl (pop_order t)"
      then have "pop_order t' = drop 1 (pop_order t)" by (simp add: drop_Suc)
      then show ?thesis ..
    qed
  next
    case (Inr res)
    obtain t1 mb1 where res: "res = (t1, mb1)" by (cases res) auto
    from gpe_body_Inr[OF Inr[unfolded res]] obtain td ind where
      pop: "bt_pop_max t = Inr ((td, ind), t1)" by blast
    from bt_pop_max_Inr[OF pop] have po: "pop_order t = (td, ind) # pop_order t1" .
    from Cons.prems Inr res have "gpe_loop b exps (t1, mb1) = Inl (err, t')" by simp
    from Cons.IH[OF this] obtain n where "pop_order t' = drop n (pop_order t1)" ..
    with po have "pop_order t' = drop (Suc n) (pop_order t)" by simp
    then show ?thesis ..
  qed
qed

lemma gpe_loop_rows:
  assumes "gpe_loop b [i..<k] (t, mb) = Inr (t', mb')"
    and "length (mb_inds_poped mb) = i" and "length (mb_terminal mb) = i"
    and "length (mb_states_tp1 mb) = k"
    and "\<forall>j<i. row_ok b mb j"
    and "\<forall>j. i \<le> j \<and> j < k \<longrightarrow> mb_states_tp1 mb ! j = 0"
    and "i \<le> k"
  shows "length (mb_inds_poped mb') = k \<and> length (mb_terminal mb') = k
         \<and> length (mb_states_tp1 mb') = k \<and> (\<forall>j<k. row_ok b mb' j)"
  using assms
proof (induction "k - i" arbitrary: i t mb)
  case 0
  then have "i = k" by simp
  with "0.prems" show ?case by simp
next
  case (Suc d)
  then have lt: "i < k" by simp
  then have upt: "[i..<k] = i # [Suc i..<k]" by (rule upt_conv_Cons)
  from Suc.prems(1) upt obtain t1 mb1 where
    body: "gpe_body b i (t, mb) = Inr (t1, mb1)"
    and rest: "gpe_loop b [Suc i..<k] (t1, mb1) = Inr (t', mb')"
    by (cases "gpe_body b i (t, mb)") auto
  from gpe_body_Inr[OF body] obtain td ind where
    inds: "mb_inds_poped mb1 = mb_inds_poped mb @ [ind]"
    and cs: "if ind \<in> term_states b
               then mb_terminal mb1 = mb_terminal mb @ [1] \<and> mb_states_tp1 mb1 = mb_states_tp1 mb
               else mb_terminal mb1 = mb_terminal mb @ [0] \<and>
                    (\<exists>st1. py_index (states b) (ind + 1) = Inr st1 \<and>
                           mb_states_tp1 mb1 = (mb_states_tp1 mb)[i := st1])" by blast
  have l1: "length (mb_inds_poped mb1) = Suc i" using inds Suc.prems(2) by simp
  have l2: "length (mb_terminal mb1) = Suc i" using cs Suc.prems(3) by (auto split: if_splits)
  have l3: "length (mb_states_tp1 mb1) = k" using cs Suc.prems(4) by (auto split: if_splits)
  have old_inds: "\<And>j. j < i \<Longrightarrow> mb_inds_poped mb1 ! j = mb_inds_poped mb ! j"
    using inds Suc.prems(2) by (simp add: nth_append)
  have old_term: "\<And>j. j < i \<Longrightarrow> mb_terminal mb1 ! j = mb_terminal mb ! j"
    using cs Suc.prems(3) by (auto simp: nth_append split: if_splits)
  have old_tp1: "\<And>j. j \<noteq> i \<Longrightarrow> mb_states_tp1 mb1 ! j = mb_states_tp1 mb ! j"
    using cs by (auto split: if_splits)
  have new_ind: "mb_inds_poped mb1 ! i = ind" using inds Suc.prems(2) by (simp add: nth_append)
  have rows: "\<forall>j<Suc i. row_ok b mb1 j"
  proof (intro allI impI)
    fix j assume j: "j < Suc i"
    show "row_ok b mb1 j"
    proof (cases "j = i")
      case False
      with j have ji: "j < i" by simp
      with Suc.prems(5) have "row_ok b mb j" by blast
      with ji old_inds[OF ji] old_term[OF ji] old_tp1[of j] show ?thesis
        by (simp add: row_ok_def)
    next
      case True
      show ?thesis
      proof (cases "ind \<in> term_states b")
        case t: True
        with cs have "mb_terminal mb1 = mb_terminal mb @ [1]" "mb_states_tp1 mb1 = mb_states_tp1 mb"
          by simp_all
        moreover from Suc.prems(6) lt have "mb_states_tp1 mb ! i = 0" by simp
        ultimately show ?thesis using True t new_ind Suc.prems(3)
          by (simp add: row_ok_def nth_append)
      next
        case f: False
        with cs obtain st1 where "mb_terminal mb1 = mb_terminal mb @ [0]"
          "py_index (states b) (ind + 1) = Inr st1" "mb_states_tp1 mb1 = (mb_states_tp1 mb)[i := st1]"
          by auto
        then show ?thesis using True f new_ind Suc.prems(3) Suc.prems(4) lt
          by (simp add: row_ok_def nth_append)
      qed
    qed
  qed
  have zeros: "\<forall>j. Suc i \<le> j \<and> j < k \<longrightarrow> mb_states_tp1 mb1 ! j = 0"
    using Suc.prems(6) old_tp1 by auto
  from Suc.hyps(2) have d: "d = k - Suc i" by simp
  from lt have le: "Suc i \<le> k" by simp
  from Suc.hyps(1)[OF d rest l1 l2 l3 rows zeros le] show ?case .
qed

lemma gpe_Inr_loop:
  assumes "get_prioritized_experience s k = Inr ((sts, acts, rws, Some tp1, Some terms, Some inds), s')"
  shows "size_eh s > k \<and> 0 \<le> k \<and>
         (\<exists>t' mb. gpe_loop s [0..<nat k]
              (tree s, \<lparr>mb_states = replicate (nat k) 0, mb_actions = [], mb_rewards = [],
                        mb_states_tp1 = replicate (nat k) 0, mb_terminal = [],
                        mb_inds_poped = []\<rparr>) = Inr (t', mb)
            \<and> s' = s\<lparr>tree := t'\<rparr> \<and> tp1 = mb_states_tp1 mb \<and> terms = mb_terminal mb
            \<and> inds = mb_inds_poped mb)"
  using assms
  by (auto simp: get_prioritized_experience_def Let_def split: if_splits sum.splits prod.splits)

text \<open>
  Claim C6. In every returned batch the index, terminal-flag and next-state components
  have \<^verbatim>\<open>mini_batch\<close> rows; at a row whose index is marked terminal the next state is the
  zero tensor and the flag is 1, and at any other row the flag is 0 and the next state is
  the buffer's state at the index plus one.
\<close>

theorem batch_terminal_handling:
  assumes "get_prioritized_experience s k =
             Inr ((sts, acts, rws, Some tp1, Some terms, Some inds), s')"
  shows "length inds = nat k \<and> length terms = nat k \<and> length tp1 = nat k \<and>
         (\<forall>j < nat k.
            if inds ! j \<in> term_states s
            then tp1 ! j = 0 \<and> terms ! j = 1
            else terms ! j = 0 \<and> py_index (states s) (inds ! j + 1) = Inr (tp1 ! j))"
proof -
  let ?mb0 = "\<lparr>mb_states = replicate (nat k) (0::'a), mb_actions = [], mb_rewards = ([]::'b list),
                mb_states_tp1 = replicate (nat k) 0, mb_terminal = [], mb_inds_poped = []\<rparr>"
  from gpe_Inr_loop[OF assms] obtain t' mb where
    loop: "gpe_loop s [0..<nat k] (tree s, ?mb0) = Inr (t', mb)"
    and eqs: "tp1 = mb_states_tp1 mb" "terms = mb_terminal mb" "inds = mb_inds_poped mb"
    by blast
  have "length (mb_inds_poped mb) = nat k \<and> length (mb_terminal mb) = nat k
         \<and> length (mb_states_tp1 mb) = nat k \<and> (\<forall>j<nat k. row_ok s mb j)"
    by (rule gpe_loop_rows[OF loop]) simp_all
  with eqs show ?thesis by (simp add: row_ok_def)
qed

theorem batch_terminal_handling_witness:
  "get_prioritized_experience
     (\<lparr>states = [10, 11, 12], actions = [0, 1, 0], rewards = [1, 2, 3], term_states = {1},
       size_eh = 3, max_len = 5,
       tree = \<lparr>root = Some (Node None \<infinity> 0 (Some (Node None \<infinity> 1 None)))\<rparr>\<rparr>
      :: (int, int, enat) prioritized_experience_handler) 2 =
   Inr ((Some [11, 10], Some [1, 0], Some [2, 1], Some [0, 11], Some [1, 0], Some [1, 0]),
        \<lparr>states = [10, 11, 12], actions = [0, 1, 0], rewards = [1, 2, 3], term_states = {1},
         size_eh = 3, max_len = 5, tree = \<lparr>root = None\<rparr>\<rparr>)
   \<and> length [1, 0 :: int] = nat 2
   \<and> ([0, 11 :: int] ! 0 = 0 \<and> [1, 0 :: int] ! 0 = 1)
   \<and> ([1, 0 :: int] ! 1 = 0 \<and> py_index [10, 11, 12 :: int] ([1, 0] ! 1 + 1) = Inr ([0, 11] ! 1))"
proof -
  let ?s = "\<lparr>states = [10, 11, 12], actions = [0, 1, 0], rewards = [1, 2, 3], term_states = {1},
       size_eh = 3, max_len = 5,
       tree = \<lparr>root = Some (Node None \<infinity> 0 (Some (Node None \<infinity> 1 None)))\<rparr>\<rparr>
      :: (int, int, enat) prioritized_experience_handler"
  have ev: "get_prioritized_experience ?s 2 =
   Inr ((Some [11, 10], Some [1, 0], Some [2, 1], Some [0, 11], Some [1, 0], Some [1, 0]),
        \<lparr>states = [10, 11, 12], actions = [0, 1, 0], rewards = [1, 2, 3], term_states = {1},
         size_eh = 3, max_len = 5, tree = \<lparr>root = None\<rparr>\<rparr>)" by code_simp
  from batch_terminal_handling[OF ev] have
    l: "length [1, 0 :: int] = nat 2" and
    rows: "\<forall>j<nat 2. if [1, 0] ! j \<in> term_states ?s
            then [0, 11 :: int] ! j = 0 \<and> [1, 0 :: int] ! j = 1
            else [1, 0 :: int] ! j = 0 \<and>
                 py_index (states ?s) ([1, 0] ! j + 1) = Inr ([0, 11] ! j)" by blast+
  from rows have r0: "[0, 11 :: int] ! 0 = 0 \<and> [1, 0 :: int] ! 0 = 1"
    by (simp add: py_index_def)
  from rows have r1: "[1, 0 :: int] ! 1 = 0 \<and> py_index [10, 11, 12 :: int] ([1, 0] ! 1 + 1) = Inr ([0, 11] ! 1)"
    by (simp add: py_index_def)
  from ev l r0 r1 show ?thesis by blast
qed

text \<open>
  Claim C4, as amended. The code has no check for stale entries: \<^verbatim>\<open>trim\<close> leaves the tree
  as it is, and when one of the entries popped during batch assembly carries a payload that
  is not resolvable in the current buffer (not a valid index, or not terminal and without
  a valid successor), \<^verbatim>\<open>get_prioritized_experience\<close> raises \<^verbatim>\<open>IndexError\<close> instead of
  skipping it. No batch is returned and the buffer is unchanged; the tree has lost exactly
  the entries popped up to and including the first one that is not resolvable (on an empty
  buffer the call raises before any pop and the tree is unchanged). The run that refutes
  the claim as stated follows the theorem: capacity 2, four appended transitions,
  \<^verbatim>\<open>trim\<close>, then a batch of one, which pops index 2 of a buffer of length 2.
\<close>

theorem stale_entry_raises:
  assumes "size_eh s > k" and "j < nat k" and "j < length (pop_order (tree s))"
    and "\<not> resolvable s (snd (pop_order (tree s) ! j))"
  shows "tree (trim s) = tree s \<and>
         (\<exists>s'. get_prioritized_experience s k = Inl (IndexError, s')
            \<and> s' = s\<lparr>tree := tree s'\<rparr>
            \<and> (if states s = [] then tree s' = tree s
                else \<exists>n. n \<le> j \<and> \<not> resolvable s (snd (pop_order (tree s) ! n))
                       \<and> (\<forall>i<n. resolvable s (snd (pop_order (tree s) ! i)))
                       \<and> pop_order (tree s') = drop (Suc n) (pop_order (tree s))))"
proof -
  from assms(2) have k: "0 \<le> k" "\<not> k < 0" by simp_all
  have "\<exists>s'. get_prioritized_experience s k = Inl (IndexError, s')
            \<and> s' = s\<lparr>tree := tree s'\<rparr>
            \<and> (if states s = [] then tree s' = tree s
                else \<exists>n. n \<le> j \<and> \<not> resolvable s (snd (pop_order (tree s) ! n))
                       \<and> (\<forall>i<n. resolvable s (snd (pop_order (tree s) ! i)))
                       \<and> pop_order (tree s') = drop (Suc n) (pop_order (tree s)))"
  proof (cases "states s = []")
    case True
    then have "py_index (states s) 0 = Inl IndexError" by (simp add: py_index_def)
    with assms(1) have "get_prioritized_experience s k = Inl (IndexError, s)"
      by (simp add: get_prioritized_experience_def)
    with True show ?thesis by simp
  next
    case False
    then have "valid_index (states s) 0" by (simp add: valid_index_def)
    then obtain st0 where st0: "py_index (states s) 0 = Inr st0" using py_index_valid by blast
    from assms(2) have "j < length [0..<nat k]" by simp
    from gpe_loop_first_unresolvable[OF this assms(3,4)] obtain t' n where
      l: "gpe_loop s [0..<nat k]
         (tree s, \<lparr>mb_states = replicate (nat k) 0, mb_actions = [], mb_rewards = [],
                   mb_states_tp1 = replicate (nat k) 0, mb_terminal = [],
                   mb_inds_poped = []\<rparr>) = Inl (IndexError, t')"
      and n: "n \<le> j" "\<not> resolvable s (snd (pop_order (tree s) ! n))"
        "\<forall>i<n. resolvable s (snd (pop_order (tree s) ! i))"
        "pop_order t' = drop (Suc n) (pop_order (tree s))" by blast
    from st0 assms(1) k l have
      g: "get_prioritized_experience s k = Inl (IndexError, s\<lparr>tree := t'\<rparr>)"
      by (simp add: get_prioritized_experience_def Let_def)
    have "\<exists>n. n \<le> j \<and> \<not> resolvable s (snd (pop_order (tree s) ! n))
                       \<and> (\<forall>i<n. resolvable s (snd (pop_order (tree s) ! i)))
                       \<and> pop_order t' = drop (Suc n) (pop_order (tree s))"
      using n by blast
    with g False show ?thesis by simp
  qed
  with tree_trim[of s] show ?thesis by simp
qed

theorem stale_entry_raises_witness:
  "tree (trim (\<lparr>states = [10, 11], actions = [0, 1], rewards = [1, 2], term_states = {},
       size_eh = 2, max_len = 5, tree = \<lparr>root = Some (Node None 3 4 None)\<rparr>\<rparr>
      :: (int, int, enat) prioritized_experience_handler)) = \<lparr>root = Some (Node None 3 4 None)\<rparr>
   \<and> get_prioritized_experience
     (\<lparr>states = [10, 11], actions = [0, 1], rewards = [1, 2], term_states = {},
       size_eh = 2, max_len = 5, tree = \<lparr>root = Some (Node None 3 4 None)\<rparr>\<rparr>
      :: (int, int, enat) prioritized_experience_handler) 1 =
   Inl (IndexError,
        \<lparr>states = [10, 11], actions = [0, 1], rewards = [1, 2], term_states = {},
         size_eh = 2, max_len = 5, tree = \<lparr>root = None\<rparr>\<rparr>)"
proof -
  let ?s = "\<lparr>states = [10, 11], actions = [0, 1], rewards = [1, 2], term_states = {},
       size_eh = 2, max_len = 5, tree = \<lparr>root = Some (Node None 3 4 None)\<rparr>\<rparr>
      :: (int, int, enat) prioritized_experience_handler"
  have po: "pop_order \<lparr>root = Some (Node None (3::enat) (4::int) None)\<rparr> = [(3, 4)]"
    by code_simp
  have h1: "size_eh ?s > 1" by simp
  have h2: "(0::nat) < nat 1" by simp
  have h3: "0 < length (pop_order (tree ?s))" by (simp add: po)
  have h4: "\<not> resolvable ?s (snd (pop_order (tree ?s) ! 0))"
    by (simp add: po resolvable_def valid_index_def)
  note th = stale_entry_raises[OF h1 h2 h3 h4]
  from th have t: "tree (trim ?s) = tree ?s" by (rule conjunct1)
  from th have "\<exists>s'. get_prioritized_experience ?s 1 = Inl (IndexError, s')"
    by (elim conjE exE, intro exI) assumption
  then obtain s' where r: "get_prioritized_experience ?s 1 = Inl (IndexError, s')" ..
  have "snd (projl (get_prioritized_experience ?s 1)) =
        \<lparr>states = [10, 11], actions = [0, 1], rewards = [1, 2], term_states = {},
         size_eh = 2, max_len = 5, tree = \<lparr>root = None\<rparr>\<rparr>" by code_simp
  with r have "s' = \<lparr>states = [10, 11], actions = [0, 1], rewards = [1, 2], term_states = {},
         size_eh = 2, max_len = 5, tree = \<lparr>root = None\<rparr>\<rparr>" by simp
  with t r show ?thesis by simp
qed

theorem stale_entry_counterexample:
  "trim (add_experience (add_experience (add_experience (add_experience
        (peh_init 2 :: (int, int, enat) prioritized_experience_handler) 10 0 1) 11 1 2) 12 0 3) 13 1 4) =
     \<lparr>states = [12, 13], actions = [0, 1], rewards = [3, 4], term_states = {},
      size_eh = 2, max_len = 2,
      tree = \<lparr>root = Some (Node None \<infinity> 0 (Some (Node None \<infinity> 1 (Some (Node None \<infinity> 2 None)))))\<rparr>\<rparr>
   \<and> get_prioritized_experience
     (\<lparr>states = [12, 13], actions = [0, 1], rewards = [3, 4], term_states = {},
       size_eh = 2, max_len = 2,
       tree = \<lparr>root = Some (Node None \<infinity> 0 (Some (Node None \<infinity> 1 (Some (Node None \<infinity> 2 None)))))\<rparr>\<rparr>
      :: (int, int, enat) prioritized_experience_handler) 1 =
   Inl (IndexError,
        \<lparr>states = [12, 13], actions = [0, 1], rewards = [3, 4], term_states = {},
         size_eh = 2, max_len = 2,
         tree = \<lparr>root = Some (Node None \<infinity> 0 (Some (Node None \<infinity> 1 None)))\<rparr>\<rparr>)"
  by code_simp

lemma gpe_resolvable:
  assumes "size_eh s > k" and "0 \<le> k" and "states s \<noteq> []"
    and "nat k \<le> length (pop_order (tree s))"
    and "\<forall>c \<in> set (take (nat k) (pop_order (tree s))). resolvable s (snd c)"
  shows "\<exists>b s'. get_prioritized_experience s k = Inr (b, s')
           \<and> batch_inds b = Some (map snd (take (nat k) (pop_order (tree s))))
           \<and> pop_order (tree s') = drop (nat k) (pop_order (tree s))"
proof -
  let ?mb0 = "\<lparr>mb_states = replicate (nat k) (0::'a), mb_actions = [], mb_rewards = ([]::'b list),
                mb_states_tp1 = replicate (nat k) 0, mb_terminal = [], mb_inds_poped = []\<rparr>"
  from assms(3) have "valid_index (states s) 0" by (simp add: valid_index_def)
  then obtain st0 where st0: "py_index (states s) 0 = Inr st0" using py_index_valid by blast
  have len: "length [0..<nat k] = nat k" by simp
  from gpe_loop_resolvable[of "[0..<nat k]" "tree s" s ?mb0] assms(4,5) len
  obtain t' mb where loop: "gpe_loop s [0..<nat k] (tree s, ?mb0) = Inr (t', mb)" by auto
  from gpe_loop_Inr[OF loop] have
    inds: "mb_inds_poped mb = map snd (take (nat k) (pop_order (tree s)))"
    and po: "pop_order t' = drop (nat k) (pop_order (tree s))" by simp_all
  from assms(1,2) st0 loop have
    "get_prioritized_experience s k =
       Inr ((Some (mb_states mb), Some (mb_actions mb), Some (mb_rewards mb),
             Some (mb_states_tp1 mb), Some (mb_terminal mb), Some (mb_inds_poped mb)),
            s\<lparr>tree := t'\<rparr>)"
    by (simp add: get_prioritized_experience_def Let_def)
  with inds po show ?thesis by (simp add: batch_inds_def)
qed

lemma gpe_inds_from_tree:
  assumes "get_prioritized_experience s k = Inr (b, s')" and "batch_inds b = Some inds"
  shows "set inds \<subseteq> snd ` set (pop_order (tree s))"
proof -
  obtain sts acts rws tp1 terms i0 where b: "b = (sts, acts, rws, tp1, terms, i0)"
    by (cases b) auto
  with assms(2) have i0: "i0 = Some inds" by (simp add: batch_inds_def)
  from assms(1) b i0 have "\<exists>tp terms'. tp1 = Some tp \<and> terms = Some terms'"
    by (auto simp: get_prioritized_experience_def Let_def split: if_splits sum.splits prod.splits)
  then obtain tp terms' where "tp1 = Some tp" "terms = Some terms'" by blast
  with assms(1) b i0 have "get_prioritized_experience s k =
      Inr ((sts, acts, rws, Some tp, Some terms', Some inds), s')" by simp
  from gpe_Inr_loop[OF this] obtain t' mb mb0 where
    loop: "gpe_loop s [0..<nat k] (tree s, mb0) = Inr (t', mb)"
    and mb0: "mb_inds_poped mb0 = []" and inds: "inds = mb_inds_poped mb"
    by (metis minibatch.select_convs(6))
  from gpe_loop_Inr[OF loop] mb0 inds
  have "inds = map snd (take (nat k) (pop_order (tree s)))" by simp
  then show ?thesis using set_take_subset[of "nat k" "pop_order (tree s)"] by auto
qed

lemma gpe_Inl_store:
  assumes "get_prioritized_experience s k = Inl (err, s')"
  shows "s' = s\<lparr>tree := tree s'\<rparr> \<and> (\<exists>n. pop_order (tree s') = drop n (pop_order (tree s)))"
proof -
  have z: "\<exists>n. pop_order (tree s) = drop n (pop_order (tree s))"
    by (rule exI[of _ 0]) simp
  from assms have "s' = s \<or> (\<exists>t' mb0. gpe_loop s [0..<nat k] (tree s, mb0) = Inl (err, t')
                                  \<and> s' = s\<lparr>tree := t'\<rparr>)"
    by (auto simp: get_prioritized_experience_def Let_def split: if_splits sum.splits prod.splits)
  then show ?thesis
  proof
    assume "s' = s"
    with z show ?thesis by simp
  next
    assume "\<exists>t' mb0. gpe_loop s [0..<nat k] (tree s, mb0) = Inl (err, t') \<and> s' = s\<lparr>tree := t'\<rparr>"
    then obtain t' mb0 where l: "gpe_loop s [0..<nat k] (tree s, mb0) = Inl (err, t')"
      and s': "s' = s\<lparr>tree := t'\<rparr>" by blast
    from gpe_loop_Inl_tree[OF l] s' show ?thesis by simp
  qed
qed

lemma gpe_Inr_store:
  assumes "get_prioritized_experience s k = Inr (b, s')"
  shows "s' = s\<lparr>tree := tree s'\<rparr> \<and> (\<exists>n. pop_order (tree s') = drop n (pop_order (tree s)))"
proof -
  have z: "\<exists>n. pop_order (tree s) = drop n (pop_order (tree s))"
    by (rule exI[of _ 0]) simp
  from assms have "s' = s \<or> (\<exists>t' mb0 mb. gpe_loop s [0..<nat k] (tree s, mb0) = Inr (t', mb)
                                  \<and> s' = s\<lparr>tree := t'\<rparr>)"
    by (auto simp: get_prioritized_experience_def Let_def split: if_splits sum.splits prod.splits)
  then show ?thesis
  proof
    assume "s' = s"
    with z show ?thesis by simp
  next
    assume "\<exists>t' mb0 mb. gpe_loop s [0..<nat k] (tree s, mb0) = Inr (t', mb) \<and> s' = s\<lparr>tree := t'\<rparr>"
    then obtain t' mb0 mb where l: "gpe_loop s [0..<nat k] (tree s, mb0) = Inr (t', mb)"
      and s': "s' = s\<lparr>tree := t'\<rparr>" by blast
    from gpe_loop_Inr[OF l] s' show ?thesis by auto
  qed
qed

lemma payloads_drop: "snd ` set (drop n xs) \<subseteq> snd ` set xs"
  using set_drop_subset[of n xs] by blast

lemma returned_later_from_tree:
  "set (returned_later s cs) \<subseteq> snd ` set (pop_order (tree s))"
proof (induction s cs rule: returned_later.induct)
  case (1 s)
  then show ?case by simp
next
  case (2 s cs)
  then show ?case by (simp add: tree_trim)
next
  case (3 s k cs)
  show ?case
  proof (cases "get_prioritized_experience s k")
    case (Inl res)
    obtain err s1 where res: "res = (err, s1)" by (cases res) auto
    from gpe_Inl_store[OF Inl[unfolded res]] obtain n where
      "pop_order (tree s1) = drop n (pop_order (tree s))" by blast
    with payloads_drop[of n "pop_order (tree s)"]
    have sub: "snd ` set (pop_order (tree s1)) \<subseteq> snd ` set (pop_order (tree s))" by simp
    from "3.IH"(1)[OF Inl res[symmetric]] sub Inl res show ?thesis by auto
  next
    case (Inr res)
    obtain b s1 where res: "res = (b, s1)" by (cases res) auto
    from gpe_Inr_store[OF Inr[unfolded res]] obtain n where
      "pop_order (tree s1) = drop n (pop_order (tree s))" by blast
    with payloads_drop[of n "pop_order (tree s)"]
    have sub: "snd ` set (pop_order (tree s1)) \<subseteq> snd ` set (pop_order (tree s))" by simp
    show ?thesis
    proof (cases "batch_inds b")
      case None
      from "3.IH"(2)[OF Inr res[symmetric] None] sub Inr res None show ?thesis by auto
    next
      case (Some inds)
      from gpe_inds_from_tree[OF Inr[unfolded res] Some]
      have i: "set inds \<subseteq> snd ` set (pop_order (tree s))" .
      from "3.IH"(3)[OF Inr res[symmetric] Some] sub i Inr res Some show ?thesis by auto
    qed
  qed
qed

text \<open>
  Claim C5, as amended. The guard of \<^verbatim>\<open>get_prioritized_experience\<close> compares
  \<^verbatim>\<open>mini_batch\<close> with the buffer size, not with the number of tree entries, and the tree
  may hold one index twice. Two runs refute the claim as stated and follow the theorem:
  after three appends a first batch of two empties the tree and a second call with the
  same arguments raises \<^verbatim>\<open>AttributeError\<close>; and an \<^verbatim>\<open>add_terminal\<close> followed by an
  append registers index 1 twice, so that the batch of two is \<open>[1, 1]\<close>.

  What holds: for a well-formed buffer of size greater than \<open>k \<ge> 0\<close> and a tree with at
  least \<open>k\<close> entries, the \<open>k\<close> popped first being resolvable, the call returns exactly
  \<open>k\<close> indices, the payloads of those \<open>k\<close> entries in pop order; it removes exactly
  those entries from the tree, each popped once, and leaves the buffer as it was. Whatever
  later draws and \<^verbatim>\<open>trim\<close> calls return, without an insertion in between, is the payload
  of an entry that stayed in the tree. When the payloads in the tree are pairwise distinct,
  the returned indices are distinct and none of them is returned by such later calls.
\<close>

theorem batch_pops_first_entries:
  fixes s :: "('s::zero, 'r, 'p) prioritized_experience_handler"
  assumes "buffer_wf s" and "size_eh s > k" and "0 \<le> k"
    and "nat k \<le> length (pop_order (tree s))"
    and "\<forall>c \<in> set (take (nat k) (pop_order (tree s))). resolvable s (snd c)"
  shows "\<exists>b s' inds. get_prioritized_experience s k = Inr (b, s') \<and> batch_inds b = Some inds
           \<and> inds = map snd (take (nat k) (pop_order (tree s)))
           \<and> length inds = nat k
           \<and> s' = s\<lparr>tree := tree s'\<rparr>
           \<and> pop_order (tree s') = drop (nat k) (pop_order (tree s))
           \<and> mset (bt_entries (tree s)) =
               mset (take (nat k) (pop_order (tree s))) + mset (bt_entries (tree s'))
           \<and> (\<forall>cs. set (returned_later s' cs) \<subseteq> snd ` set (drop (nat k) (pop_order (tree s))))
           \<and> (distinct (map snd (pop_order (tree s))) \<longrightarrow>
                 distinct inds \<and> (\<forall>cs. set inds \<inter> set (returned_later s' cs) = {}))"
proof -
  let ?po = "pop_order (tree s)"
  let ?inds = "map snd (take (nat k) ?po)"
  from assms(1,2,3) have ne: "states s \<noteq> []" by (auto simp: buffer_wf_def)
  from gpe_resolvable[OF assms(2,3) ne assms(4,5)] obtain b s' where
    g: "get_prioritized_experience s k = Inr (b, s')" and bi: "batch_inds b = Some ?inds"
    and po: "pop_order (tree s') = drop (nat k) ?po" by blast
  have len: "length ?inds = nat k" using assms(4) by simp
  from gpe_Inr_store[OF g] have st: "s' = s\<lparr>tree := tree s'\<rparr>" by blast
  have "mset ?po = mset (take (nat k) ?po @ drop (nat k) ?po)" by simp
  also have "\<dots> = mset (take (nat k) ?po) + mset (pop_order (tree s'))"
    by (simp only: mset_append po)
  finally have ms: "mset (bt_entries (tree s)) =
               mset (take (nat k) ?po) + mset (bt_entries (tree s'))"
    by (simp add: pop_order_def)
  have later: "\<forall>cs. set (returned_later s' cs) \<subseteq> snd ` set (drop (nat k) ?po)"
    using returned_later_from_tree[of s'] po by simp
  have dist: "distinct (map snd ?po) \<longrightarrow>
                 distinct ?inds \<and> (\<forall>cs. set ?inds \<inter> set (returned_later s' cs) = {})"
  proof
    assume "distinct (map snd ?po)"
    then have "distinct (map snd (take (nat k) ?po @ drop (nat k) ?po))" by simp
    then have d: "distinct ?inds" and dj: "set ?inds \<inter> set (map snd (drop (nat k) ?po)) = {}"
      by (simp_all only: map_append distinct_append)
    from dj have dj': "set ?inds \<inter> snd ` set (drop (nat k) ?po) = {}" by simp
    have "\<forall>cs. set ?inds \<inter> set (returned_later s' cs) = {}"
    proof
      fix cs
      from later have "set (returned_later s' cs) \<subseteq> snd ` set (drop (nat k) ?po)" by blast
      with dj' show "set ?inds \<inter> set (returned_later s' cs) = {}" by blast
    qed
    with d show "distinct ?inds \<and> (\<forall>cs. set ?inds \<inter> set (returned_later s' cs) = {})" by simp
  qed
  from g bi len st po ms later dist show ?thesis by blast
qed

theorem batch_pops_first_entries_witness:
  "get_prioritized_experience
     (\<lparr>states = [10, 11, 12], actions = [0, 1, 0], rewards = [1, 2, 3], term_states = {1},
       size_eh = 3, max_len = 5,
       tree = \<lparr>root = Some (Node None \<infinity> 0 (Some (Node None \<infinity> 1
                                 (Some (Node None \<infinity> 1 None)))))\<rparr>\<rparr>
      :: (int, int, enat) prioritized_experience_handler) 2 =
   Inr ((Some [11, 11], Some [1, 1], Some [2, 2], Some [0, 0], Some [1, 1], Some [1, 1]),
        \<lparr>states = [10, 11, 12], actions = [0, 1, 0], rewards = [1, 2, 3], term_states = {1},
         size_eh = 3, max_len = 5, tree = \<lparr>root = Some (Node None \<infinity> 0 None)\<rparr>\<rparr>)
   \<and> length [1, 1 :: int] = nat 2
   \<and> get_prioritized_experience
     (\<lparr>states = [10, 11, 12], actions = [0, 1, 0], rewards = [1, 2, 3], term_states = {},
       size_eh = 3, max_len = 5,
       tree = \<lparr>root = Some (Node None \<infinity> 0 (Some (Node None \<infinity> 1 None)))\<rparr>\<rparr>
      :: (int, int, enat) prioritized_experience_handler) 2 =
   Inr ((Some [11, 10], Some [1, 0], Some [2, 1], Some [12, 11], Some [0, 0], Some [1, 0]),
        \<lparr>states = [10, 11, 12], actions = [0, 1, 0], rewards = [1, 2, 3], term_states = {},
         size_eh = 3, max_len = 5, tree = \<lparr>root = None\<rparr>\<rparr>)
   \<and> distinct [1, 0 :: int]"
proof -
  let ?d = "\<lparr>states = [10, 11, 12], actions = [0, 1, 0], rewards = [1, 2, 3], term_states = {1},
       size_eh = 3, max_len = 5,
       tree = \<lparr>root = Some (Node None \<infinity> 0 (Some (Node None \<infinity> 1
                                 (Some (Node None \<infinity> 1 None)))))\<rparr>\<rparr>
      :: (int, int, enat) prioritized_experience_handler"
  let ?s = "\<lparr>states = [10, 11, 12], actions = [0, 1, 0], rewards = [1, 2, 3], term_states = {},
       size_eh = 3, max_len = 5,
       tree = \<lparr>root = Some (Node None \<infinity> 0 (Some (Node None \<infinity> 1 None)))\<rparr>\<rparr>
      :: (int, int, enat) prioritized_experience_handler"
  have pd: "pop_order (tree ?d) = [(\<infinity>, 1), (\<infinity>, 1), (\<infinity>, 0)]" by code_simp
  have d1: "buffer_wf ?d" by code_simp
  have d2: "size_eh ?d > 2" by simp
  have h3: "(0::int) \<le> 2" by simp
  have d4: "nat 2 \<le> length (pop_order (tree ?d))" unfolding pd by simp
  have rd: "resolvable ?d 1" by code_simp
  have d5: "\<forall>c \<in> set (take (nat 2) (pop_order (tree ?d))). resolvable ?d (snd c)"
    unfolding pd using rd by simp
  note td = batch_pops_first_entries[OF d1 d2 h3 d4 d5]
  from td have "\<exists>inds. inds = map snd (take (nat 2) (pop_order (tree ?d)))
                 \<and> length inds = nat 2"
    by (elim exE conjE, intro exI conjI) assumption+
  then have ld: "length [1, 1 :: int] = nat 2" unfolding pd by simp
  have evd: "get_prioritized_experience ?d 2 =
   Inr ((Some [11, 11], Some [1, 1], Some [2, 2], Some [0, 0], Some [1, 1], Some [1, 1]),
        \<lparr>states = [10, 11, 12], actions = [0, 1, 0], rewards = [1, 2, 3], term_states = {1},
         size_eh = 3, max_len = 5, tree = \<lparr>root = Some (Node None \<infinity> 0 None)\<rparr>\<rparr>)"
    by code_simp
  have po: "pop_order (tree ?s) = [(\<infinity>, 1), (\<infinity>, 0)]" by code_simp
  have s1: "buffer_wf ?s" by code_simp
  have s2: "size_eh ?s > 2" by simp
  have s4: "nat 2 \<le> length (pop_order (tree ?s))" unfolding po by simp
  have r1: "resolvable ?s 1" by code_simp
  have r0: "resolvable ?s 0" by code_simp
  have s5: "\<forall>c \<in> set (take (nat 2) (pop_order (tree ?s))). resolvable ?s (snd c)"
    unfolding po using r0 r1 by simp
  have s6: "distinct (map snd (pop_order (tree ?s)))" unfolding po by simp
  note ts = batch_pops_first_entries[OF s1 s2 h3 s4 s5]
  from ts s6 have "\<exists>inds. inds = map snd (take (nat 2) (pop_order (tree ?s))) \<and> distinct inds"
    by (elim exE conjE, intro exI conjI) (assumption, blast)
  then have ds: "distinct [1, 0 :: int]" unfolding po by simp
  have evs: "get_prioritized_experience ?s 2 =
   Inr ((Some [11, 10], Some [1, 0], Some [2, 1], Some [12, 11], Some [0, 0], Some [1, 0]),
        \<lparr>states = [10, 11, 12], actions = [0, 1, 0], rewards = [1, 2, 3], term_states = {},
         size_eh = 3, max_len = 5, tree = \<lparr>root = None\<rparr>\<rparr>)" by code_simp
  from evd ld evs ds show ?thesis by (intro conjI)
qed

theorem batch_indices_counterexample:
  "get_prioritized_experience (add_experience (add_experience (add_experience
        (peh_init 5 :: (int, int, enat) prioritized_experience_handler) 10 0 1) 11 1 2) 12 0 3) 2 =
     Inr ((Some [11, 10], Some [1, 0], Some [2, 1], Some [12, 11], Some [0, 0], Some [1, 0]),
          \<lparr>states = [10, 11, 12], actions = [0, 1, 0], rewards = [1, 2, 3], term_states = {},
           size_eh = 3, max_len = 5, tree = \<lparr>root = None\<rparr>\<rparr>)
   \<and> get_prioritized_experience
       (\<lparr>states = [10, 11, 12], actions = [0, 1, 0], rewards = [1, 2, 3], term_states = {},
         size_eh = 3, max_len = 5, tree = \<lparr>root = None\<rparr>\<rparr>
        :: (int, int, enat) prioritized_experience_handler) 2 =
     Inl (AttributeError,
          \<lparr>states = [10, 11, 12], actions = [0, 1, 0], rewards = [1, 2, 3], term_states = {},
           size_eh = 3, max_len = 5, tree = \<lparr>root = None\<rparr>\<rparr>)
   \<and> get_prioritized_experience (add_experience (add_terminal (add_experience (add_experience
        (peh_init 5 :: (int, int, enat) prioritized_experience_handler) 10 0 1) 11 1 2)) 12 0 3) 2 =
     Inr ((Some [11, 11], Some [1, 1], Some [2, 2], Some [0, 0], Some [1, 1], Some [1, 1]),
          \<lparr>states = [10, 11, 12], actions = [0, 1, 0], rewards = [1, 2, 3], term_states = {1},
           size_eh = 3, max_len = 5, tree = \<lparr>root = Some (Node None \<infinity> 0 None)\<rparr>\<rparr>)"
  by code_simp

lemma pop_order_single:
  "root t = None \<Longrightarrow> pop_order (bt_insert t p i) = [(p, i)]"
  by (simp add: pop_order_def bt_insert_def bt_entries_def)

text \<open>
  Claim C8, as amended. From a store with an empty tree and a well-formed buffer of more
  than one transition, \<^verbatim>\<open>set_new_td_errors([p], [i])\<close> followed by
  \<^verbatim>\<open>get_prioritized_experience(1)\<close> returns a batch whose index list is \<open>[i]\<close>, for
  every priority \<open>p\<close> and every valid index \<open>i\<close> that is marked terminal or has a valid
  successor. The claim as stated fails for the last index of a buffer without terminal
  markers: reading its successor state raises \<^verbatim>\<open>IndexError\<close>.
\<close>

theorem reinserted_index_round_trip:
  assumes "buffer_wf s" and "size_eh s > 1" and "root (tree s) = None"
    and "valid_index (states s) i"
    and "i \<in> term_states s \<or> valid_index (states s) (i + 1)"
  shows "\<exists>b s'. get_prioritized_experience (set_new_td_errors s [p] [i]) 1 = Inr (b, s')
           \<and> batch_inds b = Some [i]"
proof -
  let ?s1 = "s\<lparr>tree := bt_insert (tree s) p i\<rparr>"
  have s1: "set_new_td_errors s [p] [i] = ?s1" by simp
  have po': "pop_order (bt_insert (tree s) p i) = [(p, i)]" by (rule pop_order_single[OF assms(3)])
  then have po: "pop_order (tree ?s1) = [(p, i)]" by simp
  from assms(1,4,5) have res: "resolvable ?s1 i"
    by (simp add: resolvable_def buffer_wf_def valid_index_def)
  from assms(1,2) have ne: "states ?s1 \<noteq> []" by (auto simp: buffer_wf_def)
  have sz: "size_eh ?s1 > 1" using assms(2) by simp
  have "\<exists>b s'. get_prioritized_experience ?s1 1 = Inr (b, s')
           \<and> batch_inds b = Some (map snd (take (nat 1) (pop_order (tree ?s1))))
           \<and> pop_order (tree s') = drop (nat 1) (pop_order (tree ?s1))"
    by (rule gpe_resolvable[OF sz _ ne]) (simp_all add: po' res)
  with po s1 show ?thesis by auto
qed

theorem reinserted_index_round_trip_witness:
  "get_prioritized_experience (set_new_td_errors
      (\<lparr>states = [10, 11], actions = [0, 1], rewards = [1, 2], term_states = {},
        size_eh = 2, max_len = 5, tree = bt_init\<rparr>
       :: (int, int, enat) prioritized_experience_handler) [3] [0]) 1 =
     Inr ((Some [10], Some [0], Some [1], Some [11], Some [0], Some [0]),
          \<lparr>states = [10, 11], actions = [0, 1], rewards = [1, 2], term_states = {},
           size_eh = 2, max_len = 5, tree = \<lparr>root = None\<rparr>\<rparr>)
   \<and> batch_inds (Some [10 :: int], Some [0], Some [1 :: int], Some [11 :: int], Some [0], Some [0])
       = Some [0]"
proof -
  let ?s = "\<lparr>states = [10, 11], actions = [0, 1], rewards = [1, 2], term_states = {},
        size_eh = 2, max_len = 5, tree = bt_init\<rparr>
       :: (int, int, enat) prioritized_experience_handler"
  have h1: "buffer_wf ?s" by (simp add: buffer_wf_def)
  have h2: "size_eh ?s > 1" by simp
  have h3: "root (tree ?s) = None" by (simp add: bt_init_def)
  have h4: "valid_index (states ?s) 0" by (simp add: valid_index_def)
  have h5: "0 \<in> term_states ?s \<or> valid_index (states ?s) (0 + 1)" by (simp add: valid_index_def)
  from reinserted_index_round_trip[OF h1 h2 h3 h4 h5, of 3] obtain b s' where
    r: "get_prioritized_experience (set_new_td_errors ?s [3] [0]) 1 = Inr (b, s')"
    and bi: "batch_inds b = Some [0]" by blast
  have ev: "get_prioritized_experience (set_new_td_errors ?s [3] [0]) 1 =
     Inr ((Some [10], Some [0], Some [1], Some [11], Some [0], Some [0]),
          \<lparr>states = [10, 11], actions = [0, 1], rewards = [1, 2], term_states = {},
           size_eh = 2, max_len = 5, tree = \<lparr>root = None\<rparr>\<rparr>)" by code_simp
  from r ev bi show ?thesis by simp
qed

theorem round_trip_counterexample:
  "buffer_wf (\<lparr>states = [10, 11], actions = [0, 1], rewards = [1, 2], term_states = {},
       size_eh = 2, max_len = 5, tree = bt_init\<rparr>
      :: (int, int, enat) prioritized_experience_handler)
   \<and> get_prioritized_experience (set_new_td_errors
      (\<lparr>states = [10, 11], actions = [0, 1], rewards = [1, 2], term_states = {},
        size_eh = 2, max_len = 5, tree = bt_init\<rparr>
       :: (int, int, enat) prioritized_experience_handler) [3] [1]) 1 =
     Inl (IndexError,
          \<lparr>states = [10, 11], actions = [0, 1], rewards = [1, 2], term_states = {},
           size_eh = 2, max_len = 5, tree = \<lparr>root = None\<rparr>\<rparr>)"
  by code_simp

end
